theory Spec2Isabelle
  imports Main "HOL-Library.Sublist"
begin

section \<open>Regular expressions as the detector uses them\<close>

text \<open>
  The detector builds its matcher from string fragments and hands them to the
  JavaScript regular-expression engine.  The fragments use character classes,
  literals, concatenation, ordered alternation, the greedy quantifiers
  \<open>*\<close>, \<open>+\<close>, \<open>?\<close> and capture groups, and nothing else (no anchors,
  no look-around, no back-references), so the syntax tree below covers them.

  A line of terminal text is a \<open>string\<close>: one \<open>char\<close> per UTF-16 code unit, which
  covers the code units below 256.  The no-break space U+00A0 that the source
  mentions is \<open>CHR 0xA0\<close>.
\<close>

datatype citem = CChar char | CRange char char | CSpace | CDigit

datatype regex =
    Lit char
  | In "citem list"
  | NotIn "citem list"
  | Seq regex regex
  | Alt regex regex
  | Star regex
  | Plus regex
  | Opt regex
  | Group regex

text \<open>The class escape \<open>\s\<close> of ECMAScript, restricted to code units below 256:
  TAB, LF, VT, FF, CR, SPACE and NO-BREAK SPACE.\<close>

definition isSpace :: "char \<Rightarrow> bool" where
  "isSpace c = (c \<in> set [CHR 0x09, CHR 0x0A, CHR 0x0B, CHR 0x0C, CHR 0x0D, CHR 0x20, CHR 0xA0])"

definition isDigit :: "char \<Rightarrow> bool" where
  "isDigit c = (c \<in> set ''0123456789'')"

fun inItem :: "char \<Rightarrow> citem \<Rightarrow> bool" where
  "inItem c (CChar d) = (c = d)"
| "inItem c (CRange lo hi) = ((of_char lo :: nat) \<le> of_char c \<and> (of_char c :: nat) \<le> of_char hi)"
| "inItem c CSpace = isSpace c"
| "inItem c CDigit = isDigit c"

definition inClass :: "citem list \<Rightarrow> char \<Rightarrow> bool" where
  "inClass items c = list_ex (inItem c) items"

text \<open>Capture groups are numbered by the position of their opening parenthesis.\<close>

fun ngroups :: "regex \<Rightarrow> nat" where
  "ngroups (Lit c) = 0"
| "ngroups (In items) = 0"
| "ngroups (NotIn items) = 0"
| "ngroups (Seq a b) = ngroups a + ngroups b"
| "ngroups (Alt a b) = ngroups a + ngroups b"
| "ngroups (Star r) = ngroups r"
| "ngroups (Plus r) = ngroups r"
| "ngroups (Opt r) = ngroups r"
| "ngroups (Group r) = Suc (ngroups r)"

type_synonym captures = "nat \<Rightarrow> string option"

text \<open>A matcher state: the text not yet consumed, and the captures so far.\<close>

type_synonym mstate = "string \<times> captures"

definition clearCaps :: "nat \<Rightarrow> nat \<Rightarrow> captures \<Rightarrow> captures" where
  "clearCaps n k cp = (\<lambda>i. if n \<le> i \<and> i < n + k then None else cp i)"

fun stepChar :: "(char \<Rightarrow> bool) \<Rightarrow> mstate \<Rightarrow> mstate list" where
  "stepChar p ([], cp) = []"
| "stepChar p (x # xs, cp) = (if p x then [(xs, cp)] else [])"

fun rweight :: "regex \<Rightarrow> nat" where
  "rweight (Lit c) = 1"
| "rweight (In items) = 1"
| "rweight (NotIn items) = 1"
| "rweight (Seq a b) = Suc (rweight a + rweight b)"
| "rweight (Alt a b) = Suc (rweight a + rweight b)"
| "rweight (Star r) = Suc (rweight r)"
| "rweight (Plus r) = Suc (Suc (rweight r))"
| "rweight (Opt r) = Suc (rweight r)"
| "rweight (Group r) = Suc (rweight r)"

text \<open>
  \<open>ms n r st\<close> lists every way in which \<open>r\<close> matches a prefix of the remaining
  text of \<open>st\<close>, in the order in which the backtracking engine of ECMAScript
  tries them (first alternative first, longest repetition first); \<open>n\<close> is the
  number of the first capture group inside \<open>r\<close>.  The engine returns the first
  way that lets the rest of the pattern succeed, which is the head of the list
  for a whole pattern.  As in ECMAScript, every pass through a quantified
  sub-pattern first resets the captures inside it, and a pass of \<open>*\<close>, \<open>?\<close> or
  of \<open>+\<close> after its first that consumes nothing is rejected.
\<close>

function ms :: "nat \<Rightarrow> regex \<Rightarrow> mstate \<Rightarrow> mstate list" where
  "ms n (Lit c) st = stepChar (\<lambda>x. x = c) st"
| "ms n (In items) st = stepChar (inClass items) st"
| "ms n (NotIn items) st = stepChar (\<lambda>x. \<not> inClass items x) st"
| "ms n (Seq a b) st = concat (map (ms (n + ngroups a) b) (ms n a st))"
| "ms n (Alt a b) st = ms n a st @ ms (n + ngroups a) b st"
| "ms n (Group r) (s, cp) =
     map (\<lambda>(s', cp'). (s', cp'(n \<mapsto> take (length s - length s') s))) (ms (Suc n) r (s, cp))"
| "ms n (Opt r) (s, cp) =
     filter (\<lambda>st'. length (fst st') < length s) (ms n r (s, clearCaps n (ngroups r) cp)) @ [(s, cp)]"
| "ms n (Star r) (s, cp) =
     concat (map (\<lambda>st'. if length (fst st') < length s then ms n (Star r) st' else [])
                 (ms n r (s, clearCaps n (ngroups r) cp))) @ [(s, cp)]"
| "ms n (Plus r) (s, cp) =
     concat (map (ms n (Star r)) (ms n r (s, clearCaps n (ngroups r) cp)))"
  by pat_completeness auto
termination
  by (relation "inv_image (less_than <*lex*> less_than) (\<lambda>(n, r, st). (rweight r, length (fst st)))")
     auto


section \<open>The path and suffix grammars\<close>

text \<open>
  Each definition below is the syntax tree of the source constant of the same
  name (\<open>src/unnamed/part_000\<close>, lines 22 to 46), composed from the same parts
  in the same order as the source concatenates its strings.
\<close>

fun seqs :: "regex list \<Rightarrow> regex" where
  "seqs [] = Opt (In [])"
| "seqs [r] = r"
| "seqs (r # rs) = Seq r (seqs rs)"

fun alts :: "regex list \<Rightarrow> regex" where
  "alts [] = In []"
| "alts [r] = r"
| "alts (r # rs) = Alt r (alts rs)"

definition lits :: "string \<Rightarrow> regex" where
  "lits s = seqs (map Lit s)"

text \<open>\<open>pathPrefix = '(\\.\\.?|\\~)'\<close>\<close>

definition pathPrefix :: regex where
  "pathPrefix = Group (Alt (Seq (Lit CHR ''.'') (Opt (Lit CHR ''.''))) (Lit CHR ''~''))"

text \<open>\<open>pathSeparatorClause = '\\/'\<close>\<close>

definition pathSeparatorClause :: regex where
  "pathSeparatorClause = Lit CHR ''/''"

text \<open>\<open>excludedPathCharactersClause\<close>: the negated class of NUL, \<open>\s\<close>, and
  the characters \<open>!\<close>, backtick, \<open>&\<close>, \<open>*\<close>, \<open>(\<close>, \<open>)\<close>, \<open>[\<close>, \<open>]\<close>, single quote,
  double quote, \<open>:\<close>, \<open>;\<close> and backslash.\<close>

definition excludedPathCharacters :: "citem list" where
  "excludedPathCharacters =
     [CChar (CHR 0x00), CSpace, CChar CHR ''!'', CChar (CHR 0x60), CChar CHR ''&'',
      CChar CHR ''*'', CChar CHR ''('', CChar CHR '')'', CChar CHR ''['', CChar CHR '']'',
      CChar (CHR 0x27), CChar (CHR 0x22), CChar CHR '':'', CChar CHR '';'', CChar (CHR 0x5C)]"

definition excludedPathCharactersClause :: regex where
  "excludedPathCharactersClause = NotIn excludedPathCharacters"

text \<open>\<open>unixLocalLinkClause = '((' + pathPrefix + '|(' + excludedPathCharactersClause
  + ')+)?(' + pathSeparatorClause + '(' + excludedPathCharactersClause + ')+)+)'\<close>\<close>

definition unixLocalLinkClause :: regex where
  "unixLocalLinkClause =
     Group (Seq (Opt (Group (Alt pathPrefix (Plus (Group excludedPathCharactersClause)))))
                (Plus (Group (Seq pathSeparatorClause (Plus (Group excludedPathCharactersClause))))))"

text \<open>\<open>winDrivePrefix\<close> is the regular expression \<open>(?:\\\\\?\\)?[a-zA-Z]:\<close>: an
  optional, non-capturing \<open>\\?\\<close> (two backslashes, a question mark, a
  backslash), a letter and a colon.\<close>

definition winDrivePrefix :: regex where
  "winDrivePrefix =
     seqs [Opt (seqs [Lit (CHR 0x5C), Lit (CHR 0x5C), Lit CHR ''?'', Lit (CHR 0x5C)]),
           In [CRange CHR ''a'' CHR ''z'', CRange CHR ''A'' CHR ''Z''],
           Lit CHR '':'']"

text \<open>\<open>winPathPrefix = '(' + winDrivePrefix + '|\\.\\.?|\\~)'\<close>\<close>

definition winPathPrefix :: regex where
  "winPathPrefix =
     Group (alts [winDrivePrefix, Seq (Lit CHR ''.'') (Opt (Lit CHR ''.'')), Lit CHR ''~''])"

text \<open>\<open>winPathSeparatorClause = '(\\\\|\\/)'\<close>: a backslash or a slash, captured.\<close>

definition winPathSeparatorClause :: regex where
  "winPathSeparatorClause = Group (Alt (Lit (CHR 0x5C)) (Lit CHR ''/''))"

text \<open>\<open>winExcludedPathCharactersClause\<close>: the negated class of NUL, \<open><\<close>, \<open>>\<close>,
  \<open>?\<close>, \<open>|\<close>, \<open>/\<close>, \<open>\s\<close>, \<open>!\<close>, backtick, \<open>&\<close>, \<open>*\<close>, \<open>(\<close>, \<open>)\<close>, \<open>[\<close>, \<open>]\<close>,
  single quote, double quote, \<open>:\<close> and \<open>;\<close>.\<close>

definition winExcludedPathCharactersClause :: regex where
  "winExcludedPathCharactersClause =
     NotIn [CChar (CHR 0x00), CChar CHR ''<'', CChar CHR ''>'', CChar CHR ''?'', CChar CHR ''|'',
            CChar CHR ''/'', CSpace, CChar CHR ''!'', CChar (CHR 0x60), CChar CHR ''&'',
            CChar CHR ''*'', CChar CHR ''('', CChar CHR '')'', CChar CHR ''['', CChar CHR '']'',
            CChar (CHR 0x27), CChar (CHR 0x22), CChar CHR '':'', CChar CHR '';'']"

definition winLocalLinkClause :: regex where
  "winLocalLinkClause =
     Group (Seq (Opt (Group (Alt winPathPrefix (Plus (Group winExcludedPathCharactersClause)))))
                (Plus (Group (Seq winPathSeparatorClause
                                  (Plus (Group winExcludedPathCharactersClause))))))"

text \<open>The class escapes \<open>\S\<close> and \<open>\d\<close>, and the two quote characters.\<close>

definition notSpace :: regex where "notSpace = NotIn [CSpace]"
definition digit :: regex where "digit = In [CDigit]"
definition quoteChar :: regex where "quoteChar = In [CChar (CHR 0x27), CChar (CHR 0x22)]"

text \<open>The six alternatives of \<open>lineAndColumnClause\<close>, in the order of the source
  array, before the replacement of the spaces:
  \<^enum> \<^verbatim>\<open>((\S*)['"], line ((\d+)( column (\d+))?))\<close>
  \<^enum> \<^verbatim>\<open>((\S*)['"],((\d+)(:(\d+))?))\<close>
  \<^enum> \<^verbatim>\<open>((\S*) on line ((\d+)(, column (\d+))?))\<close>
  \<^enum> \<^verbatim>\<open>((\S*):line ((\d+)(, column (\d+))?))\<close>
  \<^enum> \<^verbatim>\<open>(([^\s\(\)]*)(\s?[\(\[](\d+)(,\s?(\d+))?)[\)\]])\<close>
  \<^enum> \<^verbatim>\<open>(([^:\s\(\)<>'"\[\]]*)(:(\d+))?(:(\d+))?)\<close>
\<close>

definition lineAndColumnAlternatives :: "regex list" where
  "lineAndColumnAlternatives =
    [ Group (seqs [Group (Star notSpace), quoteChar, lits '', line '',
                   Group (seqs [Group (Plus digit),
                                Opt (Group (seqs [lits '' column '', Group (Plus digit)]))])]),
      Group (seqs [Group (Star notSpace), quoteChar, Lit CHR '','',
                   Group (seqs [Group (Plus digit),
                                Opt (Group (seqs [Lit CHR '':'', Group (Plus digit)]))])]),
      Group (seqs [Group (Star notSpace), lits '' on line '',
                   Group (seqs [Group (Plus digit),
                                Opt (Group (seqs [lits '', column '', Group (Plus digit)]))])]),
      Group (seqs [Group (Star notSpace), lits '':line '',
                   Group (seqs [Group (Plus digit),
                                Opt (Group (seqs [lits '', column '', Group (Plus digit)]))])]),
      Group (seqs [Group (Star (NotIn [CSpace, CChar CHR ''('', CChar CHR '')''])),
                   Group (seqs [Opt (In [CSpace]), In [CChar CHR ''('', CChar CHR ''[''],
                                Group (Plus digit),
                                Opt (Group (seqs [Lit CHR '','', Opt (In [CSpace]),
                                                  Group (Plus digit)]))]),
                   In [CChar CHR '')'', CChar CHR '']'']]),
      Group (seqs [Group (Star (NotIn [CChar CHR '':'', CSpace, CChar CHR ''('', CChar CHR '')'',
                                       CChar CHR ''<'', CChar CHR ''>'', CChar (CHR 0x27),
                                       CChar (CHR 0x22), CChar CHR ''['', CChar CHR '']''])),
                   Opt (Group (seqs [Lit CHR '':'', Group (Plus digit)])),
                   Opt (Group (seqs [Lit CHR '':'', Group (Plus digit)]))]) ]"

text \<open>\<^verbatim>\<open>.replace(/ /g, `[${'\u00A0'} ]`)\<close>: every space of the pattern text becomes
  the class of the no-break space and the space.  All spaces of the six
  alternatives are literal characters outside a class.\<close>

fun replaceSpaces :: "regex \<Rightarrow> regex" where
  "replaceSpaces (Lit c) = (if c = CHR '' '' then In [CChar (CHR 0xA0), CChar CHR '' ''] else Lit c)"
| "replaceSpaces (In items) = In items"
| "replaceSpaces (NotIn items) = NotIn items"
| "replaceSpaces (Seq a b) = Seq (replaceSpaces a) (replaceSpaces b)"
| "replaceSpaces (Alt a b) = Alt (replaceSpaces a) (replaceSpaces b)"
| "replaceSpaces (Star r) = Star (replaceSpaces r)"
| "replaceSpaces (Plus r) = Plus (replaceSpaces r)"
| "replaceSpaces (Opt r) = Opt (replaceSpaces r)"
| "replaceSpaces (Group r) = Group (replaceSpaces r)"

definition lineAndColumnClause :: regex where
  "lineAndColumnClause = replaceSpaces (alts lineAndColumnAlternatives)"

definition winLineAndColumnMatchIndex :: nat where "winLineAndColumnMatchIndex = 12"
definition unixLineAndColumnMatchIndex :: nat where "unixLineAndColumnMatchIndex = 11"
definition lineAndColumnClauseGroupCount :: nat where "lineAndColumnClauseGroupCount = 6"

datatype OperatingSystem = Windows | Macintosh | Linux

text \<open>The getter \<open>_localLinkRegex\<close> (lines 192 to 196): the path clause of the
  platform followed by the suffix clause in a capture group of its own.\<close>

definition localLinkRegex :: "OperatingSystem \<Rightarrow> regex" where
  "localLinkRegex os =
     (let baseLocalLinkClause = (if os = Windows then winLocalLinkClause else unixLocalLinkClause)
      in Seq baseLocalLinkClause (Group lineAndColumnClause))"

section \<open>Searching a line\<close>

text \<open>
  \<open>rex.exec(text)\<close> on a global expression starts at \<open>rex.lastIndex\<close> and tries
  each start position in turn; at the first position where the pattern matches
  it returns the match of highest priority there.  The result holds the index
  of the match, the matched text \<open>match[0]\<close> and the captures.  \<open>None\<close> is the
  \<open>null\<close> of the source.
\<close>

record rmatch =
  m_index :: nat
  m_text :: string
  m_groups :: captures

fun searchFrom :: "regex \<Rightarrow> string \<Rightarrow> nat \<Rightarrow> rmatch option" where
  "searchFrom r [] i =
     (case ms 1 r ([], \<lambda>_. None) of
        [] \<Rightarrow> None
      | (s', cp) # _ \<Rightarrow> Some \<lparr>m_index = i, m_text = [], m_groups = cp\<rparr>)"
| "searchFrom r (c # cs) i =
     (case ms 1 r (c # cs, \<lambda>_. None) of
        [] \<Rightarrow> searchFrom r cs (Suc i)
      | (s', cp) # _ \<Rightarrow>
          Some \<lparr>m_index = i, m_text = take (length (c # cs) - length s') (c # cs), m_groups = cp\<rparr>)"

definition rexExec :: "regex \<Rightarrow> string \<Rightarrow> nat \<Rightarrow> rmatch option" where
  "rexExec r text lastIndex =
     (if lastIndex > length text then None else searchFrom r (drop lastIndex text) lastIndex)"

text \<open>\<open>text.indexOf(link, from)\<close>: the first position at or after \<open>from\<close> where
  \<open>link\<close> occurs in \<open>text\<close>; \<open>None\<close> is the \<open>-1\<close> of the source.\<close>

fun indexOfAux :: "string \<Rightarrow> string \<Rightarrow> nat \<Rightarrow> nat option" where
  "indexOfAux link [] k = (if link = [] then Some k else None)"
| "indexOfAux link (c # cs) k =
     (if prefix link (c # cs) then Some k else indexOfAux link cs (Suc k))"

definition indexOf :: "string \<Rightarrow> string \<Rightarrow> nat \<Rightarrow> nat option" where
  "indexOf text link from = indexOfAux link (drop from text) (min from (length text))"


section \<open>The detector\<close>

text \<open>The result of the injected \<open>_resolvePath\<close>: the promise resolves to a
  record \<open>{ uri, link, isDirectory }\<close>, resolves to \<open>undefined\<close>, or rejects.\<close>

record validated =
  v_uri :: string
  v_link :: string
  v_isDirectory :: bool

datatype resolution = Resolved validated | NotFound | Rejected string

datatype TerminalLinkType = LocalFile | LocalFolderOutsideWorkspace | LocalFolderInWorkspace

type_synonym bufferRange = "(nat \<times> nat) \<times> (nat \<times> nat)"

record simpleLink =
  l_text :: string
  l_uri :: string
  l_bufferRange :: bufferRange
  l_type :: TerminalLinkType

text \<open>
  What the detector is given from outside: the resolver, the workspace
  folders with the comparison \<open>extUri.isEqualOrParent\<close>, and
  \<open>convertLinkRangeToBuffer\<close> applied to the lines, the width and the start line
  of the call, as a function of \<open>startColumn\<close> and \<open>endColumn\<close>.
\<close>

record env =
  resolvePath :: "string \<Rightarrow> resolution"
  folders :: "string list"
  isEqualOrParent :: "string \<Rightarrow> string \<Rightarrow> bool"
  convertLinkRangeToBuffer :: "nat \<Rightarrow> nat \<Rightarrow> bufferRange"

text \<open>The fields of one detector instance: \<open>_os\<close>, \<open>_enableCaching\<close> and the
  timer handle \<open>_cacheTilTimeout\<close> (line 60), which starts at 0.\<close>

record detector =
  d_os :: OperatingSystem
  d_enableCaching :: bool
  d_cacheTilTimeout :: nat

text \<open>
  The state shared by the whole process: the module-level map
  \<open>cachedValidatedLinks\<close> (line 55), where \<open>Some None\<close> is the entry \<open>null\<close> and
  \<open>None\<close> is no entry; the pending timers of \<open>window\<close>, each with its handle
  and the time at which it is due; the next handle \<open>window.setTimeout\<close> gives
  out; and the calls made to the resolver so far, in order.  Every timer of
  this program runs \<open>cachedValidatedLinks.clear()\<close>.
\<close>

record world =
  cachedValidatedLinks :: "string \<rightharpoonup> validated option"
  timers :: "(nat \<times> nat) list"
  nextHandle :: nat
  resolveCalls :: "string list"

definition setTimeout :: "nat \<Rightarrow> nat \<Rightarrow> world \<Rightarrow> nat \<times> world" where
  "setTimeout now delay w =
     (nextHandle w,
      w\<lparr>timers := timers w @ [(nextHandle w, now + delay)], nextHandle := Suc (nextHandle w)\<rparr>)"

definition clearTimeout :: "nat \<Rightarrow> world \<Rightarrow> world" where
  "clearTimeout h w = w\<lparr>timers := filter (\<lambda>t. fst t \<noteq> h) (timers w)\<rparr>"

text \<open>The passing of time: every timer that is due runs and is gone.\<close>

definition runTimers :: "nat \<Rightarrow> world \<Rightarrow> world" where
  "runTimers now w =
     (if list_ex (\<lambda>t. snd t \<le> now) (timers w)
      then w\<lparr>cachedValidatedLinks := Map.empty, timers := filter (\<lambda>t. now < snd t) (timers w)\<rparr>
      else w)"

definition MaxLineLength :: nat where "MaxLineLength = 2000"

text \<open>Lines 76 to 81: reset the time to live of the cache.\<close>

definition resetCacheTTL :: "nat \<Rightarrow> detector \<Rightarrow> world \<Rightarrow> detector \<times> world" where
  "resetCacheTTL now d w =
     (if d_enableCaching d then
        (let w1 = (if d_cacheTilTimeout d \<noteq> 0 then clearTimeout (d_cacheTilTimeout d) w else w);
             (h, w2) = setTimeout now 10000 w1
         in (d\<lparr>d_cacheTilTimeout := h\<rparr>, w2))
      else (d, w))"

text \<open>Lines 114 to 124: the adjustment of a match on a line of a git diff.
  \<open>link.substring(2)\<close> is \<open>drop 2 link\<close>.\<close>

definition startsWith :: "string \<Rightarrow> string \<Rightarrow> bool" where
  "startsWith s p = prefix p s"

definition diffAdjust :: "string \<Rightarrow> string \<Rightarrow> nat \<Rightarrow> string \<times> nat" where
  "diffAdjust text link stringIndex =
     (if ((startsWith text ''--- a/'' \<or> startsWith text ''+++ b/'') \<and> stringIndex = 4) \<or>
         (startsWith text ''diff --git'' \<and> (startsWith link ''a/'' \<or> startsWith link ''b/''))
      then (drop 2 link, stringIndex + 2)
      else (link, stringIndex))"

text \<open>Lines 144 to 147: the candidates.  \<open>/^(\.\.[\/\\])+/\<close> matches one or
  more leading \<open>../\<close> or \<open>..\\<close>, as many as there are, and \<open>replace\<close> removes
  what it matched.\<close>

fun stripParents :: "string \<Rightarrow> string" where
  "stripParents (a # b # c # rest) =
     (if a = CHR ''.'' \<and> b = CHR ''.'' \<and> (c = CHR ''/'' \<or> c = CHR 0x5C)
      then stripParents rest else a # b # c # rest)"
| "stripParents s = s"

definition matchesParents :: "string \<Rightarrow> bool" where
  "matchesParents link = (startsWith link ''../'' \<or> startsWith link [CHR ''.'', CHR ''.'', CHR 0x5C])"

definition linkCandidates :: "string \<Rightarrow> string list" where
  "linkCandidates link = (if matchesParents link then [link, stripParents link] else [link])"

text \<open>Lines 208 to 216.  A rejection of the resolver leaves the loop and the
  function at once, as the \<open>await\<close> rethrows it.\<close>

fun validateLinkCandidates :: "env \<Rightarrow> string list \<Rightarrow> world \<Rightarrow> (string + validated option) \<times> world" where
  "validateLinkCandidates e [] w = (Inr None, w)"
| "validateLinkCandidates e (link # rest) w =
     (let w' = w\<lparr>resolveCalls := resolveCalls w @ [link]\<rparr>
      in case resolvePath e link of
           Resolved result \<Rightarrow> (Inr (Some result), w')
         | NotFound \<Rightarrow> validateLinkCandidates e rest w'
         | Rejected err \<Rightarrow> (Inl err, w'))"

text \<open>Lines 198 to 206.\<close>

definition isDirectoryInsideWorkspace :: "env \<Rightarrow> string \<Rightarrow> bool" where
  "isDirectoryInsideWorkspace e u = list_ex (\<lambda>f. isEqualOrParent e u f) (folders e)"

text \<open>Lines 156 to 185: the link made from a validated result.\<close>

definition makeLink :: "env \<Rightarrow> validated \<Rightarrow> bufferRange \<Rightarrow> simpleLink" where
  "makeLink e linkStat brange =
     \<lparr>l_text = v_link linkStat, l_uri = v_uri linkStat, l_bufferRange = brange,
      l_type = (if v_isDirectory linkStat
                then (if isDirectoryInsideWorkspace e (v_uri linkStat)
                      then LocalFolderInWorkspace else LocalFolderOutsideWorkspace)
                else LocalFile)\<rparr>"

text \<open>
  Lines 135 to 185, for one match: the links it appends and the new shared
  state, or the error of the resolver.  On a cache miss the source declares a
  second variable, \<open>const linkStat = await ...\<close> (line 148), inside the block of
  the \<open>if\<close>; the \<open>linkStat\<close> that line 156 tests is the outer one of line 135,
  which is still \<open>undefined\<close>, so nothing is appended on that path.
\<close>

definition processLink ::
  "env \<Rightarrow> detector \<Rightarrow> string \<Rightarrow> bufferRange \<Rightarrow> world \<Rightarrow> (string + simpleLink list) \<times> world" where
  "processLink e d link brange w =
     (case cachedValidatedLinks w link of
        Some None \<Rightarrow> (Inr [], w)
      | Some (Some linkStat) \<Rightarrow> (Inr [makeLink e linkStat brange], w)
      | None \<Rightarrow>
          (case validateLinkCandidates e (linkCandidates link) w of
             (Inl err, w') \<Rightarrow> (Inl err, w')
           | (Inr inner, w') \<Rightarrow>
               (Inr [],
                if d_enableCaching d
                then w'\<lparr>cachedValidatedLinks := (cachedValidatedLinks w')(link \<mapsto> inner)\<rparr>
                else w')))"

lemma indexOfAux_bounds:
  "indexOfAux link s k = Some i \<Longrightarrow> k \<le> i \<and> i + length link \<le> k + length s"
proof (induction s arbitrary: k)
  case Nil
  then show ?case by (auto split: if_splits)
next
  case (Cons c cs)
  show ?case
  proof (cases "prefix link (c # cs)")
    case True
    with Cons.prems show ?thesis by (auto dest: prefix_length_le)
  next
    case False
    with Cons.prems have "indexOfAux link cs (Suc k) = Some i" by simp
    from Cons.IH[OF this] show ?thesis by simp
  qed
qed

lemma indexOf_bounds:
  assumes "indexOf text link from = Some i" and "link \<noteq> []"
  shows "from \<le> i \<and> i + length link \<le> length text"
proof -
  from assms(1) have *: "min from (length text) \<le> i"
    "i + length link \<le> min from (length text) + length (drop from text)"
    using indexOfAux_bounds unfolding indexOf_def by blast+
  show ?thesis
  proof (cases "from \<le> length text")
    case True
    with * show ?thesis by simp
  next
    case False
    with * assms(2) show ?thesis by (cases link) auto
  qed
qed

lemma loop_decreases:
  assumes "indexOf text link (nat (stringIndex + 1)) = Some found" and "link \<noteq> []"
    and "(link', stringIndex') = diffAdjust text link found"
  shows "length text - nat (int stringIndex' + 1) < length text - nat (stringIndex + 1)"
proof -
  from indexOf_bounds[OF assms(1,2)]
  have b: "nat (stringIndex + 1) \<le> found" "found + length link \<le> length text" by simp_all
  from assms(3)[symmetric] have "found \<le> stringIndex'"
    by (auto simp: diffAdjust_def split: if_splits)
  moreover from assms(2) have "0 < length link" by simp
  ultimately show ?thesis using b by linarith
qed

text \<open>
  Lines 93 to 186: the loop.  \<open>lastIndex\<close> is \<open>rex.lastIndex\<close>, \<open>stringIndex\<close>
  is the variable of that name (an integer, \<open>-1\<close> before the first pass), and
  \<open>links\<close> is the array built so far.
\<close>

function detectLoop ::
  "env \<Rightarrow> detector \<Rightarrow> string \<Rightarrow> nat \<Rightarrow> int \<Rightarrow> world \<Rightarrow> simpleLink list
     \<Rightarrow> (string + simpleLink list) \<times> world" where
  "detectLoop e d text lastIndex stringIndex w links =
     (case rexExec (localLinkRegex (d_os d)) text lastIndex of
        None \<Rightarrow> (Inr links, w)
      | Some m \<Rightarrow>
          (let link = m_text m in
           if link = [] then (Inr links, w)
           else
             (case indexOf text link (nat (stringIndex + 1)) of
                None \<Rightarrow> (Inr links, w)
              | Some found \<Rightarrow>
                  (let (link', stringIndex') = diffAdjust text link found;
                       brange = convertLinkRangeToBuffer e (stringIndex' + 1)
                                 (stringIndex' + length link' + 1)
                   in case processLink e d link' brange w of
                        (Inl err, w') \<Rightarrow> (Inl err, w')
                      | (Inr new, w') \<Rightarrow>
                          detectLoop e d text (found + length link) (int stringIndex') w'
                            (links @ new)))))"
  by pat_completeness auto
termination
  by (relation "measure (\<lambda>(e, d, text, lastIndex, stringIndex, w, links).
                            length text - nat (stringIndex + 1))")
     (auto intro: loop_decreases)

text \<open>Lines 72 to 190: \<open>detect\<close>, on the text that \<open>getXtermLineContent\<close>
  returns for the lines of the call, at time \<open>now\<close>.\<close>

definition detect ::
  "env \<Rightarrow> nat \<Rightarrow> string \<Rightarrow> detector \<Rightarrow> world \<Rightarrow> (string + simpleLink list) \<times> detector \<times> world" where
  "detect e now text d w =
     (let (d1, w1) = resetCacheTTL now d w in
      if text = [] \<or> length text > MaxLineLength then (Inr [], d1, w1)
      else (case detectLoop e d1 text 0 (- 1) w1 [] of (res, w2) \<Rightarrow> (res, d1, w2)))"


declare detectLoop.simps [simp del]

section \<open>The matches of a line\<close>

text \<open>
  The part of the loop that finds the matches (lines 93 to 124) does not
  depend on the part that validates them (lines 126 to 185).  \<open>scanFrom\<close> is
  the first part alone: the adjusted link text and \<open>stringIndex\<close> of every pass
  of the loop, in order.  \<open>processMatches\<close> is the second part, run over such a
  list.
\<close>

function scanFrom :: "OperatingSystem \<Rightarrow> string \<Rightarrow> nat \<Rightarrow> int \<Rightarrow> (string \<times> nat) list" where
  "scanFrom os text lastIndex stringIndex =
     (case rexExec (localLinkRegex os) text lastIndex of
        None \<Rightarrow> []
      | Some m \<Rightarrow>
          (let link = m_text m in
           if link = [] then []
           else
             (case indexOf text link (nat (stringIndex + 1)) of
                None \<Rightarrow> []
              | Some found \<Rightarrow>
                  (let (link', stringIndex') = diffAdjust text link found
                   in (link', stringIndex') #
                      scanFrom os text (found + length link) (int stringIndex')))))"
  by pat_completeness auto
termination
  by (relation "measure (\<lambda>(os, text, lastIndex, stringIndex). length text - nat (stringIndex + 1))")
     (auto intro: loop_decreases)

declare scanFrom.simps [simp del]

definition scan :: "OperatingSystem \<Rightarrow> string \<Rightarrow> (string \<times> nat) list" where
  "scan os text =
     (if text = [] \<or> length text > MaxLineLength then [] else scanFrom os text 0 (- 1))"

fun processMatches ::
  "env \<Rightarrow> detector \<Rightarrow> (string \<times> nat) list \<Rightarrow> world \<Rightarrow> simpleLink list
     \<Rightarrow> (string + simpleLink list) \<times> world" where
  "processMatches e d [] w links = (Inr links, w)"
| "processMatches e d ((link, stringIndex) # rest) w links =
     (case processLink e d link
             (convertLinkRangeToBuffer e (stringIndex + 1) (stringIndex + length link + 1)) w of
        (Inl err, w') \<Rightarrow> (Inl err, w')
      | (Inr new, w') \<Rightarrow> processMatches e d rest w' (links @ new))"

lemma detectLoop_scanFrom:
  "detectLoop e d text lastIndex stringIndex w links =
     processMatches e d (scanFrom (d_os d) text lastIndex stringIndex) w links"
proof (induction e d "text" lastIndex stringIndex w links rule: detectLoop.induct)
  case (1 e d t lastIndex stringIndex w links)
  show ?case
    by (subst detectLoop.simps, subst scanFrom.simps)
       (auto simp: Let_def 1 split: option.splits prod.splits sum.splits)
qed

section \<open>Concrete collaborators for the examples\<close>

text \<open>A resolver that knows two files, fails on a third path and finds
  nothing else; no workspace folders; the identity for the buffer mapping.\<close>

definition exampleResolve :: "string \<Rightarrow> resolution" where
  "exampleResolve s =
     (if s = ''x/y.ts'' then
        Resolved \<lparr>v_uri = ''file:///w/x/y.ts'', v_link = ''x/y.ts'', v_isDirectory = False\<rparr>
      else if s = ''a/b'' then
        Resolved \<lparr>v_uri = ''file:///w/a/b'', v_link = ''a/b'', v_isDirectory = False\<rparr>
      else if s = ''c/d'' then Rejected ''EIO''
      else NotFound)"

definition exampleEnv :: env where
  "exampleEnv =
     \<lparr>resolvePath = exampleResolve, folders = [], isEqualOrParent = (\<lambda>a b. False),
      convertLinkRangeToBuffer = (\<lambda>startColumn endColumn. ((startColumn, 1), (endColumn, 1)))\<rparr>"

definition freshWorld :: world where
  "freshWorld = \<lparr>cachedValidatedLinks = Map.empty, timers = [], nextHandle = 1, resolveCalls = []\<rparr>"

definition unixDetector :: detector where
  "unixDetector = \<lparr>d_os = Linux, d_enableCaching = True, d_cacheTilTimeout = 0\<rparr>"

definition notFoundWorld :: world where
  "notFoundWorld = freshWorld\<lparr>cachedValidatedLinks := [''q/r'' \<mapsto> None]\<rparr>"

definition cachedWorld :: world where
  "cachedWorld =
     freshWorld\<lparr>cachedValidatedLinks :=
       [''a/b'' \<mapsto> Some \<lparr>v_uri = ''file:///w/a/b'', v_link = ''a/b'', v_isDirectory = False\<rparr>]\<rparr>"

definition diffWorld :: world where
  "diffWorld =
     freshWorld\<lparr>cachedValidatedLinks :=
       [''src/foo.ts'' \<mapsto>
          Some \<lparr>v_uri = ''file:///w/src/foo.ts'', v_link = ''src/foo.ts'', v_isDirectory = False\<rparr>]\<rparr>"

section \<open>Notions used in the statements\<close>

text \<open>The captures of the groups \<open>ks\<close> in the first match of the detector's
  expression in a line; \<open>None\<close> when there is no match, and \<open>None\<close> in the list
  for a group that did not take part in the match.\<close>

definition groupsOf :: "OperatingSystem \<Rightarrow> string \<Rightarrow> nat list \<Rightarrow> string option list option" where
  "groupsOf os text ks =
     map_option (\<lambda>m. map (m_groups m) ks) (rexExec (localLinkRegex os) text 0)"

text \<open>One line for each alternative of \<open>lineAndColumnClause\<close>, in the order of
  the source array: the path \<open>/a\<close> followed by a suffix of that form, with the
  line number 45 and the column 9.\<close>

definition suffixExamples :: "string list" where
  "suffixExamples =
     [''/a'' @ [CHR 0x22] @ '', line 45 column 9'',
      ''/a'' @ [CHR 0x22] @ '',45:9'',
      ''/a on line 45, column 9'',
      ''/a:line 45, column 9'',
      ''/a(45, 9)'',
      ''/a:45:9'']"

text \<open>The group around the whole suffix, then the groups
  \<open>matchIndex + lineAndColumnClauseGroupCount * j\<close> for \<open>j\<close> from 0 to 5, then the
  groups two after each of these.\<close>

definition layoutIndices :: "nat \<Rightarrow> nat \<Rightarrow> nat list" where
  "layoutIndices suffixGroup matchIndex =
     suffixGroup #
     map (\<lambda>j. matchIndex + lineAndColumnClauseGroupCount * j) [0..<6] @
     map (\<lambda>j. matchIndex + lineAndColumnClauseGroupCount * j + 2) [0..<6]"

text \<open>What these groups hold when alternative \<open>k\<close> matched the example of
  that alternative: the suffix, the line number at position \<open>k\<close> of the first
  six and nothing at the other five, the column at position \<open>k\<close> of the last
  six and nothing at the other five.\<close>

definition layoutRow :: "nat \<Rightarrow> string option list option" where
  "layoutRow k =
     Some (Some (drop 2 (suffixExamples ! k)) #
           map (\<lambda>j. if j = k then Some ''45'' else None) [0..<6] @
           map (\<lambda>j. if j = k then Some ''9'' else None) [0..<6])"

text \<open>The sub-pattern inside the capture group with the number \<open>j\<close>, when the
  first group of the pattern has the number \<open>n\<close>.\<close>

fun groupAt :: "nat \<Rightarrow> regex \<Rightarrow> nat \<Rightarrow> regex option" where
  "groupAt n (Lit c) j = None"
| "groupAt n (In items) j = None"
| "groupAt n (NotIn items) j = None"
| "groupAt n (Seq a b) j =
     (case groupAt n a j of Some r \<Rightarrow> Some r | None \<Rightarrow> groupAt (n + ngroups a) b j)"
| "groupAt n (Alt a b) j =
     (case groupAt n a j of Some r \<Rightarrow> Some r | None \<Rightarrow> groupAt (n + ngroups a) b j)"
| "groupAt n (Star r) j = groupAt n r j"
| "groupAt n (Plus r) j = groupAt n r j"
| "groupAt n (Opt r) j = groupAt n r j"
| "groupAt n (Group r) j = (if j = n then Some r else groupAt (Suc n) r j)"

text \<open>The characters a pattern can consume.\<close>

fun accepts :: "regex \<Rightarrow> char \<Rightarrow> bool" where
  "accepts (Lit c) x = (x = c)"
| "accepts (In items) x = inClass items x"
| "accepts (NotIn items) x = (\<not> inClass items x)"
| "accepts (Seq a b) x = (accepts a x \<or> accepts b x)"
| "accepts (Alt a b) x = (accepts a x \<or> accepts b x)"
| "accepts (Star r) x = accepts r x"
| "accepts (Plus r) x = accepts r x"
| "accepts (Opt r) x = accepts r x"
| "accepts (Group r) x = accepts r x"

definition isPathChar :: "char \<Rightarrow> bool" where
  "isPathChar c = (\<not> inClass excludedPathCharacters c)"

text \<open>A pattern matches a whole string when one of the ways in which it
  matches at the start of the string consumes all of it.\<close>

definition fullMatch :: "regex \<Rightarrow> string \<Rightarrow> bool" where
  "fullMatch r w = list_ex (\<lambda>st. fst st = []) (ms 1 r (w, \<lambda>_. None))"

section \<open>Several detectors on one shared state\<close>

text \<open>
  The detectors of a process, each with its own fields, and the state they
  share.  An event is a call of \<open>detect\<close> on the detector with a given index, at
  a given time and for a given line, or the passing of time up to a given
  moment, at which the timers that are due run.
\<close>

record system =
  dets :: "detector list"
  shared :: world

datatype event = Detect nat nat string | Tick nat

fun stepSys :: "env \<Rightarrow> system \<Rightarrow> event \<Rightarrow> system" where
  "stepSys e s (Detect i now line) =
     (if i < length (dets s)
      then (case detect e now line (dets s ! i) (shared s) of
              (res, d', w') \<Rightarrow> \<lparr>dets = (dets s)[i := d'], shared = w'\<rparr>)
      else s)"
| "stepSys e s (Tick now) = s\<lparr>shared := runTimers now (shared s)\<rparr>"

definition runSys :: "env \<Rightarrow> system \<Rightarrow> event list \<Rightarrow> system" where
  "runSys e s evs = foldl (stepSys e) s evs"

text \<open>A process starts with no timer, an empty cache, and every detector's
  \<open>_cacheTilTimeout\<close> at 0.\<close>

definition startSystem :: "detector list \<Rightarrow> system" where
  "startSystem ds = \<lparr>dets = map (\<lambda>d. d\<lparr>d_cacheTilTimeout := 0\<rparr>) ds, shared = freshWorld\<rparr>"

definition sysInv :: "system \<Rightarrow> bool" where
  "sysInv s \<longleftrightarrow>
     0 < nextHandle (shared s) \<and>
     (\<forall>t \<in> set (timers (shared s)). 0 < fst t \<and> fst t < nextHandle (shared s)) \<and>
     (\<forall>d \<in> set (dets s). d_cacheTilTimeout d < nextHandle (shared s)) \<and>
     distinct (map fst (timers (shared s))) \<and>
     (\<forall>t \<in> set (timers (shared s)). \<exists>d \<in> set (dets s). d_cacheTilTimeout d = fst t)"

text \<open>The handles that the detectors hold are pairwise different, except
  for the 0 of a detector that has not armed a timer yet.\<close>

definition handlesDistinct :: "system \<Rightarrow> bool" where
  "handlesDistinct s \<longleftrightarrow>
     (\<forall>i < length (dets s). \<forall>j < length (dets s).
        i \<noteq> j \<longrightarrow> d_cacheTilTimeout (dets s ! i) \<noteq> 0 \<longrightarrow>
        d_cacheTilTimeout (dets s ! i) \<noteq> d_cacheTilTimeout (dets s ! j))"

text \<open>An event that leaves alone a timer of the detector \<open>i\<close> that is due at
  \<open>due\<close>: a call of \<open>detect\<close> on another detector, or time passing up to a
  moment before \<open>due\<close>.\<close>

fun quietFor :: "nat \<Rightarrow> nat \<Rightarrow> event \<Rightarrow> bool" where
  "quietFor i due (Detect j now line) = (j \<noteq> i)"
| "quietFor i due (Tick now) = (now < due)"

text \<open>In a process with one detector: a sequence of events in which every
  call of \<open>detect\<close> and every passing of time comes before \<open>due\<close>, where \<open>due\<close>
  is 10 seconds after the call of \<open>detect\<close> before it.\<close>

fun withinWindow :: "nat \<Rightarrow> event list \<Rightarrow> bool" where
  "withinWindow due [] = True"
| "withinWindow due (Detect j now line # evs) =
     (j = 0 \<and> now < due \<and> withinWindow (now + 10000) evs)"
| "withinWindow due (Tick now # evs) = (now < due \<and> withinWindow due evs)"

text \<open>Every entry of the cache that holds a result holds one that the
  resolver gives for a candidate of its key.\<close>

definition cacheOk :: "env \<Rightarrow> world \<Rightarrow> bool" where
  "cacheOk e w \<longleftrightarrow>
     (\<forall>k v. cachedValidatedLinks w k = Some (Some v) \<longrightarrow>
        (\<exists>c \<in> set (linkCandidates k). resolvePath e c = Resolved v))"

section \<open>Facts about the parts of \<open>detect\<close>\<close>

lemma resetCacheTTL_keeps:
  "resetCacheTTL now d w = (d1, w1) \<Longrightarrow>
     cachedValidatedLinks w1 = cachedValidatedLinks w \<and> resolveCalls w1 = resolveCalls w \<and>
     d_os d1 = d_os d \<and> d_enableCaching d1 = d_enableCaching d"
  by (auto simp: resetCacheTTL_def setTimeout_def clearTimeout_def Let_def split: if_splits)

lemma validate_first_success:
  assumes "\<forall>x \<in> set pre. resolvePath e x = NotFound" and "resolvePath e c = Resolved v"
  shows "validateLinkCandidates e (pre @ c # post) w =
           (Inr (Some v), w\<lparr>resolveCalls := resolveCalls w @ pre @ [c]\<rparr>)"
  using assms by (induction pre arbitrary: w) (simp_all add: Let_def)

lemma validate_all_fail:
  assumes "\<forall>x \<in> set cs. resolvePath e x = NotFound"
  shows "validateLinkCandidates e cs w = (Inr None, w\<lparr>resolveCalls := resolveCalls w @ cs\<rparr>)"
  using assms by (induction cs arbitrary: w) (simp_all add: Let_def)

lemma validate_rejected:
  assumes "\<forall>x \<in> set pre. resolvePath e x = NotFound" and "resolvePath e c = Rejected err"
  shows "validateLinkCandidates e (pre @ c # post) w =
           (Inl err, w\<lparr>resolveCalls := resolveCalls w @ pre @ [c]\<rparr>)"
  using assms by (induction pre arbitrary: w) (simp_all add: Let_def)

lemma validate_keeps:
  "validateLinkCandidates e cs w = (r, w') \<Longrightarrow>
     cachedValidatedLinks w' = cachedValidatedLinks w \<and> timers w' = timers w \<and>
     nextHandle w' = nextHandle w"
  by (induction cs arbitrary: w) (auto simp: Let_def split: resolution.splits)

text \<open>Within one pass an entry of the cache is never overwritten: line 150
  runs only when line 135 found no entry.\<close>

lemma processLink_cache_mono:
  assumes "processLink e d link br w = (r, w')" and "cachedValidatedLinks w k = Some v"
  shows "cachedValidatedLinks w' k = Some v"
proof (cases "cachedValidatedLinks w link")
  case None
  with assms(2) have ne: "k \<noteq> link" by auto
  obtain r0 w0 where v: "validateLinkCandidates e (linkCandidates link) w = (r0, w0)"
    by (cases "validateLinkCandidates e (linkCandidates link) w")
  from validate_keeps[OF v] have "cachedValidatedLinks w0 = cachedValidatedLinks w" by simp
  with assms None v ne show ?thesis
    by (auto simp: processLink_def split: sum.splits if_splits)
next
  case (Some a)
  with assms show ?thesis
    by (auto simp: processLink_def split: option.splits)
qed

lemma processMatches_cache_mono:
  assumes "processMatches e d ms0 w links = (r, w')" and "cachedValidatedLinks w k = Some v"
  shows "cachedValidatedLinks w' k = Some v"
  using assms
proof (induction ms0 arbitrary: w links)
  case Nil
  then show ?case by simp
next
  case (Cons m rest)
  obtain link si where m: "m = (link, si)" by (cases m)
  obtain r1 w1 where p: "processLink e d link
      (convertLinkRangeToBuffer e (si + 1) (si + length link + 1)) w = (r1, w1)"
    by (cases "processLink e d link (convertLinkRangeToBuffer e (si + 1) (si + length link + 1)) w")
  from processLink_cache_mono[OF p Cons.prems(2)] have c1: "cachedValidatedLinks w1 k = Some v" .
  show ?case
  proof (cases r1)
    case (Inl err)
    with Cons.prems m p c1 show ?thesis by simp
  next
    case (Inr new)
    with Cons.prems m p have "processMatches e d rest w1 (links @ new) = (r, w')" by simp
    from Cons.IH[OF this c1] show ?thesis .
  qed
qed

lemma processLink_not_found:
  "cachedValidatedLinks w link = Some None \<Longrightarrow> processLink e d link br w = (Inr [], w)"
  by (simp add: processLink_def)

lemma processMatches_all_not_found:
  "\<forall>m \<in> set ms0. cachedValidatedLinks w (fst m) = Some None \<Longrightarrow>
     processMatches e d ms0 w links = (Inr links, w)"
  by (induction ms0) (auto simp: processLink_not_found)

lemma detect_unfold:
  assumes "resetCacheTTL now d w = (d1, w1)" and "text \<noteq> []" and "length text \<le> MaxLineLength"
  shows "detect e now text d w =
           (case processMatches e d1 (scan (d_os d) text) w1 [] of (res, w2) \<Rightarrow> (res, d1, w2))"
proof -
  from resetCacheTTL_keeps[OF assms(1)] have "d_os d1 = d_os d" by simp
  with assms show ?thesis
    by (simp add: detect_def scan_def detectLoop_scanFrom)
qed

section \<open>The claims\<close>

text \<open>
  C4.  If the reconstructed line is empty or longer than 2000 characters,
  \<open>detect\<close> returns the empty sequence without an error, without a call to the
  resolver and without touching the cache; so a line of 2001 characters yields
  no link.  A line of exactly 2000 characters passes the check of lines 85 to
  87 and is handed to the loop like any shorter line.
\<close>

theorem detect_length_bound:
  "(text = [] \<or> length text > 2000 \<longrightarrow>
      (\<exists>d' w'. detect e now text d w = (Inr [], d', w') \<and>
                resolveCalls w' = resolveCalls w \<and>
                cachedValidatedLinks w' = cachedValidatedLinks w)) \<and>
   (length text = 2001 \<longrightarrow> fst (detect e now text d w) = Inr []) \<and>
   (length text = 2000 \<longrightarrow>
      detect e now text d w =
        (case resetCacheTTL now d w of
           (d1, w1) \<Rightarrow> (case detectLoop e d1 text 0 (- 1) w1 [] of (res, w2) \<Rightarrow> (res, d1, w2))))"
proof -
  obtain d1 w1 where r: "resetCacheTTL now d w = (d1, w1)"
    by (cases "resetCacheTTL now d w")
  from resetCacheTTL_keeps[OF r]
  have k: "cachedValidatedLinks w1 = cachedValidatedLinks w" "resolveCalls w1 = resolveCalls w"
    by simp_all
  have a: "text = [] \<or> length text > 2000 \<longrightarrow>
      (\<exists>d' w'. detect e now text d w = (Inr [], d', w') \<and>
                resolveCalls w' = resolveCalls w \<and>
                cachedValidatedLinks w' = cachedValidatedLinks w)"
    using r k by (auto simp: detect_def MaxLineLength_def)
  have b: "length text = 2001 \<longrightarrow> fst (detect e now text d w) = Inr []"
    using r by (auto simp: detect_def MaxLineLength_def)
  have c: "length text = 2000 \<longrightarrow>
      detect e now text d w =
        (case resetCacheTTL now d w of
           (d1, w1) \<Rightarrow> (case detectLoop e d1 text 0 (- 1) w1 [] of (res, w2) \<Rightarrow> (res, d1, w2)))"
    using r by (auto simp: detect_def MaxLineLength_def)
  from a b c show ?thesis by blast
qed

theorem detect_length_bound_witness:
  "length (replicate 2001 CHR ''a'') = 2001 \<and>
   fst (detect exampleEnv 0 (replicate 2001 CHR ''a'') unixDetector freshWorld) = Inr [] \<and>
   (\<exists>d' w'. detect exampleEnv 0 [] unixDetector freshWorld = (Inr [], d', w') \<and>
             resolveCalls w' = resolveCalls freshWorld \<and>
             cachedValidatedLinks w' = cachedValidatedLinks freshWorld) \<and>
   length (replicate 2000 CHR ''a'') = 2000 \<and>
   detect exampleEnv 0 (replicate 2000 CHR ''a'') unixDetector freshWorld =
     (case resetCacheTTL 0 unixDetector freshWorld of
        (d1, w1) \<Rightarrow>
          (case detectLoop exampleEnv d1 (replicate 2000 CHR ''a'') 0 (- 1) w1 [] of
             (res, w2) \<Rightarrow> (res, d1, w2)))"
  using detect_length_bound[of "replicate 2001 CHR ''a''" exampleEnv 0 unixDetector freshWorld]
        detect_length_bound[of "[]" exampleEnv 0 unixDetector freshWorld]
        detect_length_bound[of "replicate 2000 CHR ''a''" exampleEnv 0 unixDetector freshWorld]
  by simp

lemma stripParents_decomp:
  "\<exists>segs. (\<forall>s \<in> set segs. s = ''../'' \<or> s = [CHR ''.'', CHR ''.'', CHR 0x5C]) \<and>
          link = concat segs @ stripParents link \<and>
          \<not> matchesParents (stripParents link) \<and>
          (matchesParents link \<longleftrightarrow> segs \<noteq> [])"
proof (induction link rule: stripParents.induct)
  case (1 a b c rest)
  show ?case
  proof (cases "a = CHR ''.'' \<and> b = CHR ''.'' \<and> (c = CHR ''/'' \<or> c = CHR 0x5C)")
    case True
    with 1 obtain segs where s:
      "\<forall>s \<in> set segs. s = ''../'' \<or> s = [CHR ''.'', CHR ''.'', CHR 0x5C]"
      "rest = concat segs @ stripParents rest"
      "\<not> matchesParents (stripParents rest)"
      by blast
    let ?segs = "[a, b, c] # segs"
    have "\<forall>s \<in> set ?segs. s = ''../'' \<or> s = [CHR ''.'', CHR ''.'', CHR 0x5C]"
      using True s(1) by auto
    moreover have "a # b # c # rest = concat ?segs @ stripParents (a # b # c # rest)"
      using True s(2) by simp
    moreover have "\<not> matchesParents (stripParents (a # b # c # rest))"
      using True s(3) by simp
    moreover have "matchesParents (a # b # c # rest) \<longleftrightarrow> ?segs \<noteq> []"
      using True by (auto simp: matchesParents_def startsWith_def)
    ultimately show ?thesis by blast
  next
    case False
    then have n: "\<not> matchesParents (a # b # c # rest)"
      by (auto simp: matchesParents_def startsWith_def)
    from False have e: "stripParents (a # b # c # rest) = a # b # c # rest"
      by auto
    show ?thesis
      by (rule exI[of _ "[]"]) (simp only: e n, simp)
  qed
qed (rule exI[of _ "[]"], simp add: matchesParents_def startsWith_def)+

text \<open>
  C5.  The candidate list is the link text, followed by one more candidate
  exactly when the text begins with one or more segments \<open>../\<close> or \<open>..\\<close>: the
  text without all of these leading segments.  The validator calls the resolver
  on the candidates in list order, returns the first result that is not
  \<open>undefined\<close> without calling it again, and returns \<open>undefined\<close> after calling it
  on all of them when none resolves.
\<close>

theorem candidates_in_order:
  "linkCandidates link = (if matchesParents link then [link, stripParents link] else [link]) \<and>
   (\<exists>segs. (\<forall>s \<in> set segs. s = ''../'' \<or> s = [CHR ''.'', CHR ''.'', CHR 0x5C]) \<and>
           link = concat segs @ stripParents link \<and>
           \<not> matchesParents (stripParents link) \<and>
           (matchesParents link \<longleftrightarrow> segs \<noteq> [])) \<and>
   ((\<forall>x \<in> set pre. resolvePath e x = NotFound) \<and> resolvePath e c = Resolved v \<longrightarrow>
      validateLinkCandidates e (pre @ c # post) w =
        (Inr (Some v), w\<lparr>resolveCalls := resolveCalls w @ pre @ [c]\<rparr>)) \<and>
   ((\<forall>x \<in> set cs. resolvePath e x = NotFound) \<longrightarrow>
      validateLinkCandidates e cs w = (Inr None, w\<lparr>resolveCalls := resolveCalls w @ cs\<rparr>))"
proof -
  have a: "linkCandidates link =
             (if matchesParents link then [link, stripParents link] else [link])"
    by (simp add: linkCandidates_def)
  from a stripParents_decomp[of link] validate_first_success[of pre e c v post w]
       validate_all_fail[of cs e w]
  show ?thesis by blast
qed

theorem candidates_in_order_witness:
  "resolvePath exampleEnv ''../../x/y.ts'' = NotFound \<and>
   resolvePath exampleEnv ''x/y.ts'' =
     Resolved \<lparr>v_uri = ''file:///w/x/y.ts'', v_link = ''x/y.ts'', v_isDirectory = False\<rparr> \<and>
   linkCandidates ''../../x/y.ts'' = [''../../x/y.ts'', ''x/y.ts''] \<and>
   validateLinkCandidates exampleEnv (linkCandidates ''../../x/y.ts'') freshWorld =
     (Inr (Some \<lparr>v_uri = ''file:///w/x/y.ts'', v_link = ''x/y.ts'', v_isDirectory = False\<rparr>),
      freshWorld\<lparr>resolveCalls := resolveCalls freshWorld @ [''../../x/y.ts''] @ [''x/y.ts'']\<rparr>) \<and>
   resolvePath exampleEnv ''q/r'' = NotFound \<and> resolvePath exampleEnv ''s'' = NotFound \<and>
   validateLinkCandidates exampleEnv [''q/r'', ''s''] freshWorld =
     (Inr None, freshWorld\<lparr>resolveCalls := resolveCalls freshWorld @ [''q/r'', ''s'']\<rparr>)"
proof -
  have h1: "\<forall>x \<in> set [''../../x/y.ts'']. resolvePath exampleEnv x = NotFound"
    by (simp add: exampleEnv_def exampleResolve_def)
  have h2: "resolvePath exampleEnv ''x/y.ts'' =
     Resolved \<lparr>v_uri = ''file:///w/x/y.ts'', v_link = ''x/y.ts'', v_isDirectory = False\<rparr>"
    by (simp add: exampleEnv_def exampleResolve_def)
  have h3: "\<forall>x \<in> set [''q/r'', ''s'']. resolvePath exampleEnv x = NotFound"
    by (simp add: exampleEnv_def exampleResolve_def)
  have h4: "matchesParents ''../../x/y.ts''" "stripParents ''../../x/y.ts'' = ''x/y.ts''"
    by (simp_all add: matchesParents_def startsWith_def)
  from h1 h2 h3 h4
       candidates_in_order[of "''../../x/y.ts''" "[''../../x/y.ts'']" exampleEnv "''x/y.ts''"
         "\<lparr>v_uri = ''file:///w/x/y.ts'', v_link = ''x/y.ts'', v_isDirectory = False\<rparr>"
         "[]" freshWorld "[''q/r'', ''s'']"]
  show ?thesis by simp
qed

lemma processMatches_append:
  "processMatches e d (pre @ rest) w links =
     (case processMatches e d pre w links of
        (Inl err, w') \<Rightarrow> (Inl err, w')
      | (Inr links', w') \<Rightarrow> processMatches e d rest w' links')"
  by (induction pre arbitrary: w links) (auto split: prod.splits sum.splits)

lemma validate_calls:
  "validateLinkCandidates e cs w = (r, w') \<Longrightarrow>
     \<exists>tried. resolveCalls w' = resolveCalls w @ tried \<and>
             (\<forall>v. r = Inr v \<longrightarrow> (\<forall>x \<in> set tried. \<forall>err. resolvePath e x \<noteq> Rejected err))"
proof (induction cs arbitrary: w)
  case Nil
  then show ?case by auto
next
  case (Cons c cs)
  show ?case
  proof (cases "resolvePath e c")
    case (Resolved v)
    with Cons.prems show ?thesis
      by (intro exI[of _ "[c]"]) (auto simp: Let_def)
  next
    case NotFound
    with Cons.prems
    have "validateLinkCandidates e cs (w\<lparr>resolveCalls := resolveCalls w @ [c]\<rparr>) = (r, w')"
      by (simp add: Let_def)
    from Cons.IH[OF this] obtain tried where
      t: "resolveCalls w' = (resolveCalls w @ [c]) @ tried"
         "\<forall>v. r = Inr v \<longrightarrow> (\<forall>x \<in> set tried. \<forall>err. resolvePath e x \<noteq> Rejected err)"
      by auto
    with NotFound show ?thesis
      by (intro exI[of _ "c # tried"]) auto
  next
    case (Rejected err)
    with Cons.prems show ?thesis
      by (intro exI[of _ "[c]"]) (auto simp: Let_def)
  qed
qed

lemma processLink_calls:
  assumes "processLink e d link br w = (r, w')"
  shows "\<exists>tried. resolveCalls w' = resolveCalls w @ tried \<and>
             (\<forall>v. r = Inr v \<longrightarrow> (\<forall>x \<in> set tried. \<forall>err. resolvePath e x \<noteq> Rejected err))"
proof (cases "cachedValidatedLinks w link")
  case None
  obtain r0 w0 where v: "validateLinkCandidates e (linkCandidates link) w = (r0, w0)"
    by (cases "validateLinkCandidates e (linkCandidates link) w")
  from validate_calls[OF v] obtain tried where
    t: "resolveCalls w0 = resolveCalls w @ tried"
       "\<forall>v. r0 = Inr v \<longrightarrow> (\<forall>x \<in> set tried. \<forall>err. resolvePath e x \<noteq> Rejected err)"
    by auto
  from assms None v have "resolveCalls w' = resolveCalls w0" "\<forall>v. r = Inr v \<longrightarrow> (\<exists>v0. r0 = Inr v0)"
    by (auto simp: processLink_def split: sum.splits if_splits)
  with t show ?thesis by (intro exI[of _ tried]) auto
next
  case (Some a)
  with assms have "w' = w"
    by (auto simp: processLink_def split: option.splits)
  then show ?thesis by (intro exI[of _ "[]"]) simp
qed

lemma processMatches_calls:
  "processMatches e d ms0 w links = (r, w') \<Longrightarrow>
     \<exists>tried. resolveCalls w' = resolveCalls w @ tried \<and>
             (\<forall>v. r = Inr v \<longrightarrow> (\<forall>x \<in> set tried. \<forall>err. resolvePath e x \<noteq> Rejected err))"
proof (induction ms0 arbitrary: w links)
  case Nil
  then show ?case by auto
next
  case (Cons m rest)
  obtain link si where m: "m = (link, si)" by (cases m)
  obtain r1 w1 where p: "processLink e d link
      (convertLinkRangeToBuffer e (si + 1) (si + length link + 1)) w = (r1, w1)"
    by (cases "processLink e d link (convertLinkRangeToBuffer e (si + 1) (si + length link + 1)) w")
  from processLink_calls[OF p] obtain t1 where
    t1: "resolveCalls w1 = resolveCalls w @ t1"
        "\<forall>v. r1 = Inr v \<longrightarrow> (\<forall>x \<in> set t1. \<forall>err. resolvePath e x \<noteq> Rejected err)"
    by auto
  show ?case
  proof (cases r1)
    case (Inl err)
    with Cons.prems m p have "r = Inl err" "w' = w1" by simp_all
    with t1 show ?thesis by (intro exI[of _ t1]) auto
  next
    case (Inr new)
    with Cons.prems m p have "processMatches e d rest w1 (links @ new) = (r, w')" by simp
    from Cons.IH[OF this] obtain t2 where
      t2: "resolveCalls w' = resolveCalls w1 @ t2"
          "\<forall>v. r = Inr v \<longrightarrow> (\<forall>x \<in> set t2. \<forall>err. resolvePath e x \<noteq> Rejected err)"
      by auto
    with t1 Inr show ?thesis by (intro exI[of _ "t1 @ t2"]) auto
  qed
qed

lemmas ex_defs = exampleEnv_def exampleResolve_def freshWorld_def unixDetector_def cachedWorld_def
  resetCacheTTL_def setTimeout_def clearTimeout_def processLink_def linkCandidates_def
  matchesParents_def startsWith_def makeLink_def isDirectoryInsideWorkspace_def Let_def

text \<open>
  C10.  Let the matches of the line be \<open>pre\<close>, then \<open>(link, si)\<close>, then \<open>post\<close>;
  let the matches of \<open>pre\<close> be processed without a rejection, giving the links
  \<open>ls\<close> and the shared state \<open>w2\<close>; let \<open>link\<close> have no cache entry, and let the
  resolver reject a candidate \<open>c\<close> of \<open>link\<close> after finding nothing for the
  candidates before it.  Then \<open>detect\<close> fails with the error of the resolver:
  the links \<open>ls\<close> are not returned, and the shared state it leaves is \<open>w2\<close> with
  the calls made for \<open>link\<close> added, so all that the pass wrote to the cache
  before stays.  Conversely, when \<open>detect\<close> returns links, no call of the pass
  was rejected.
\<close>

theorem resolver_rejection_propagates:
  "(text \<noteq> [] \<and> length text \<le> MaxLineLength \<and>
    resetCacheTTL now d w = (d1, w1) \<and>
    scan (d_os d) text = pre @ (link, si) # post \<and>
    processMatches e d1 pre w1 [] = (Inr ls, w2) \<and>
    cachedValidatedLinks w2 link = None \<and>
    linkCandidates link = cpre @ c # cpost \<and>
    (\<forall>x \<in> set cpre. resolvePath e x = NotFound) \<and>
    resolvePath e c = Rejected err \<longrightarrow>
      detect e now text d w =
        (Inl err, d1, w2\<lparr>resolveCalls := resolveCalls w2 @ cpre @ [c]\<rparr>) \<and>
      (\<forall>k v. cachedValidatedLinks w1 k = Some v \<longrightarrow> cachedValidatedLinks w2 k = Some v)) \<and>
   (detect e now text d w = (Inr links, d', w') \<longrightarrow>
      (\<exists>tried. resolveCalls w' = resolveCalls w @ tried \<and>
               (\<forall>x \<in> set tried. \<forall>err. resolvePath e x \<noteq> Rejected err)))"
proof -
  have a: "text \<noteq> [] \<and> length text \<le> MaxLineLength \<and>
    resetCacheTTL now d w = (d1, w1) \<and>
    scan (d_os d) text = pre @ (link, si) # post \<and>
    processMatches e d1 pre w1 [] = (Inr ls, w2) \<and>
    cachedValidatedLinks w2 link = None \<and>
    linkCandidates link = cpre @ c # cpost \<and>
    (\<forall>x \<in> set cpre. resolvePath e x = NotFound) \<and>
    resolvePath e c = Rejected err \<longrightarrow>
      detect e now text d w =
        (Inl err, d1, w2\<lparr>resolveCalls := resolveCalls w2 @ cpre @ [c]\<rparr>) \<and>
      (\<forall>k v. cachedValidatedLinks w1 k = Some v \<longrightarrow> cachedValidatedLinks w2 k = Some v)"
  proof (intro impI, elim conjE)
    assume h: "text \<noteq> []" "length text \<le> MaxLineLength"
      "resetCacheTTL now d w = (d1, w1)"
      "scan (d_os d) text = pre @ (link, si) # post"
      "processMatches e d1 pre w1 [] = (Inr ls, w2)"
      "cachedValidatedLinks w2 link = None"
      "linkCandidates link = cpre @ c # cpost"
      "\<forall>x \<in> set cpre. resolvePath e x = NotFound"
      "resolvePath e c = Rejected err"
    let ?w3 = "w2\<lparr>resolveCalls := resolveCalls w2 @ cpre @ [c]\<rparr>"
    from h(7,8,9) have v: "validateLinkCandidates e (linkCandidates link) w2 = (Inl err, ?w3)"
      by (simp add: validate_rejected)
    with h(6) have p: "processLink e d1 link
        (convertLinkRangeToBuffer e (si + 1) (si + length link + 1)) w2 = (Inl err, ?w3)"
      by (simp add: processLink_def)
    from h(5) p have "processMatches e d1 (pre @ (link, si) # post) w1 [] = (Inl err, ?w3)"
      by (simp add: processMatches_append)
    with detect_unfold[OF h(3) h(1) h(2), of e] h(4)
    have "detect e now text d w = (Inl err, d1, ?w3)" by simp
    moreover from processMatches_cache_mono[OF h(5)]
    have "\<forall>k v. cachedValidatedLinks w1 k = Some v \<longrightarrow> cachedValidatedLinks w2 k = Some v"
      by blast
    ultimately show "detect e now text d w = (Inl err, d1, ?w3) \<and>
      (\<forall>k v. cachedValidatedLinks w1 k = Some v \<longrightarrow> cachedValidatedLinks w2 k = Some v)"
      by blast
  qed
  have b: "detect e now text d w = (Inr links, d', w') \<longrightarrow>
      (\<exists>tried. resolveCalls w' = resolveCalls w @ tried \<and>
               (\<forall>x \<in> set tried. \<forall>err. resolvePath e x \<noteq> Rejected err))"
  proof
    assume h: "detect e now text d w = (Inr links, d', w')"
    obtain d1 w1 where rr: "resetCacheTTL now d w = (d1, w1)"
      by (cases "resetCacheTTL now d w")
    from resetCacheTTL_keeps[OF rr] have k: "resolveCalls w1 = resolveCalls w" by simp
    show "\<exists>tried. resolveCalls w' = resolveCalls w @ tried \<and>
               (\<forall>x \<in> set tried. \<forall>err. resolvePath e x \<noteq> Rejected err)"
    proof (cases "text = [] \<or> length text > MaxLineLength")
      case True
      with h rr k have "resolveCalls w' = resolveCalls w" by (auto simp: detect_def)
      then show ?thesis by (intro exI[of _ "[]"]) simp
    next
      case False
      then have f: "text \<noteq> []" "length text \<le> MaxLineLength" by auto
      from detect_unfold[OF rr f, of e] h
      have "processMatches e d1 (scan (d_os d) text) w1 [] = (Inr links, w')"
        by (auto split: prod.splits)
      from processMatches_calls[OF this] k show ?thesis by auto
    qed
  qed
  from a b show ?thesis by blast
qed

theorem resolver_rejection_propagates_witness:
  "scan (d_os unixDetector) ''x/y.ts a/b c/d'' =
     [(''x/y.ts'', 0), (''a/b'', 7)] @ (''c/d'', 11) # [] \<and>
   resolvePath exampleEnv ''c/d'' = Rejected ''EIO'' \<and>
   fst (detect exampleEnv 0 ''x/y.ts a/b c/d'' unixDetector cachedWorld) = Inl ''EIO'' \<and>
   cachedValidatedLinks (snd (snd (detect exampleEnv 0 ''x/y.ts a/b c/d'' unixDetector cachedWorld)))
       ''x/y.ts'' =
     Some (Some \<lparr>v_uri = ''file:///w/x/y.ts'', v_link = ''x/y.ts'', v_isDirectory = False\<rparr>) \<and>
   resolveCalls (snd (snd (detect exampleEnv 0 ''x/y.ts a/b c/d'' unixDetector cachedWorld))) =
     [''x/y.ts'', ''c/d'']"
proof -
  let ?T = "''x/y.ts a/b c/d''"
  let ?pre = "[(''x/y.ts'', 0 :: nat), (''a/b'', 7)]"
  let ?d1 = "fst (resetCacheTTL 0 unixDetector cachedWorld)"
  let ?w1 = "snd (resetCacheTTL 0 unixDetector cachedWorld)"
  let ?w2 = "snd (processMatches exampleEnv ?d1 ?pre ?w1 [])"
  let ?ls = "[\<lparr>l_text = ''a/b'', l_uri = ''file:///w/a/b'', l_bufferRange = ((8, 1), (11, 1)),
               l_type = LocalFile\<rparr>]"
  have s0: "scan Linux ?T = [(''x/y.ts'', 0), (''a/b'', 7), (''c/d'', 11)]" by code_simp
  then have s: "scan (d_os unixDetector) ?T = ?pre @ (''c/d'', 11) # []"
    by (simp add: unixDetector_def)
  have r: "resetCacheTTL 0 unixDetector cachedWorld = (?d1, ?w1)" by simp
  have p1: "fst (processMatches exampleEnv ?d1 ?pre ?w1 []) = Inr ?ls" by (simp add: ex_defs)
  then have p: "processMatches exampleEnv ?d1 ?pre ?w1 [] = (Inr ?ls, ?w2)"
    by (simp add: prod_eq_iff)
  have c: "cachedValidatedLinks ?w2 ''c/d'' = None" by (simp add: ex_defs)
  have x: "cachedValidatedLinks ?w2 ''x/y.ts'' =
     Some (Some \<lparr>v_uri = ''file:///w/x/y.ts'', v_link = ''x/y.ts'', v_isDirectory = False\<rparr>)"
    by (simp add: ex_defs)
  have calls: "resolveCalls ?w2 = [''x/y.ts'']" by (simp add: ex_defs)
  have lc: "linkCandidates ''c/d'' = [] @ ''c/d'' # []"
    by (simp add: linkCandidates_def matchesParents_def startsWith_def)
  have rj: "resolvePath exampleEnv ''c/d'' = Rejected ''EIO''"
    by (simp add: exampleEnv_def exampleResolve_def)
  have b: "?T \<noteq> [] \<and> length ?T \<le> MaxLineLength" by (simp add: MaxLineLength_def)
  from b r s p c lc rj
    resolver_rejection_propagates[of ?T 0 unixDetector cachedWorld ?d1 ?w1 ?pre "''c/d''" 11 "[]"
      exampleEnv ?ls ?w2 "[]" "''c/d''" "[]" "''EIO''"]
  have det: "detect exampleEnv 0 ?T unixDetector cachedWorld =
               (Inl ''EIO'', ?d1, ?w2\<lparr>resolveCalls := resolveCalls ?w2 @ [] @ [''c/d'']\<rparr>)"
    by simp
  from s rj x calls show ?thesis
    by (simp add: det)
qed

text \<open>On a cache miss no link is ever appended, whatever the resolver returns.\<close>

lemma processLink_miss_no_link:
  "cachedValidatedLinks w link = None \<Longrightarrow> fst (processLink e d link br w) \<noteq> Inr (l # ls)"
  by (auto simp: processLink_def split: prod.splits sum.splits)

text \<open>
  C1 (the code departs from it).  The line \<open>../../x/y.ts\<close>, an empty cache,
  caching enabled, and a resolver that finds nothing for \<open>../../x/y.ts\<close> and
  resolves \<open>x/y.ts\<close>: the validation succeeds on the second candidate and its
  result is stored in the cache, but the pass returns no link.  A second pass
  over the same line returns the link, from the cache.
\<close>

theorem cache_miss_appends_nothing:
  "fst (detect exampleEnv 0 ''../../x/y.ts'' unixDetector freshWorld) = Inr [] \<and>
   resolveCalls (snd (snd (detect exampleEnv 0 ''../../x/y.ts'' unixDetector freshWorld))) =
     [''../../x/y.ts'', ''x/y.ts''] \<and>
   cachedValidatedLinks (snd (snd (detect exampleEnv 0 ''../../x/y.ts'' unixDetector freshWorld)))
       ''../../x/y.ts'' =
     Some (Some \<lparr>v_uri = ''file:///w/x/y.ts'', v_link = ''x/y.ts'', v_isDirectory = False\<rparr>) \<and>
   (case detect exampleEnv 0 ''../../x/y.ts'' unixDetector freshWorld of
      (res, d, w) \<Rightarrow> fst (detect exampleEnv 5 ''../../x/y.ts'' d w)) =
     Inr [\<lparr>l_text = ''x/y.ts'', l_uri = ''file:///w/x/y.ts'', l_bufferRange = ((1, 1), (13, 1)),
           l_type = LocalFile\<rparr>]"
proof -
  let ?T = "''../../x/y.ts''"
  have s: "scan Linux ?T = [(?T, 0)]" by code_simp
  have b: "?T \<noteq> []" "length ?T \<le> MaxLineLength" by (simp_all add: MaxLineLength_def)
  have u: "detect exampleEnv now ?T d w =
             (case processMatches exampleEnv (fst (resetCacheTTL now d w)) (scan (d_os d) ?T)
                     (snd (resetCacheTTL now d w)) [] of
                (res, w2) \<Rightarrow> (res, fst (resetCacheTTL now d w), w2))" for now d w
    by (rule detect_unfold[OF _ b]) simp
  have first: "detect exampleEnv 0 ?T unixDetector freshWorld =
     (Inr [], unixDetector\<lparr>d_cacheTilTimeout := 1\<rparr>,
      \<lparr>cachedValidatedLinks =
         [?T \<mapsto> Some \<lparr>v_uri = ''file:///w/x/y.ts'', v_link = ''x/y.ts'', v_isDirectory = False\<rparr>],
       timers = [(1, 10000)], nextHandle = 2, resolveCalls = [?T, ''x/y.ts'']\<rparr>)"
    using s by (simp add: u) (simp add: ex_defs)
  have second: "fst (detect exampleEnv 5 ?T (unixDetector\<lparr>d_cacheTilTimeout := 1\<rparr>)
      \<lparr>cachedValidatedLinks =
         [?T \<mapsto> Some \<lparr>v_uri = ''file:///w/x/y.ts'', v_link = ''x/y.ts'', v_isDirectory = False\<rparr>],
       timers = [(1, 10000)], nextHandle = 2, resolveCalls = [?T, ''x/y.ts'']\<rparr>) =
     Inr [\<lparr>l_text = ''x/y.ts'', l_uri = ''file:///w/x/y.ts'', l_bufferRange = ((1, 1), (13, 1)),
           l_type = LocalFile\<rparr>]"
    using s by (simp add: u) (simp add: ex_defs)
  show ?thesis
    unfolding first prod.case second by simp
qed

text \<open>
  C6 (the code departs from it).  On the line \<open>a/b/c /b/c\<close> the expression
  matches \<open>a/b/c\<close> at 0 and \<open>/b/c\<close> at 6.  For the second match line 107
  searches \<open>/b/c\<close> from position 1, inside the first match, and finds it
  there; the loop then resumes at 5 and the expression matches \<open>/b/c\<close> at 6
  once more.  The line yields three matches, and the second, at 1 to 5,
  overlaps the first, at 0 to 5.
\<close>

theorem scan_overlapping_matches:
  "scan Linux ''a/b/c /b/c'' = [(''a/b/c'', 0), (''/b/c'', 1), (''/b/c'', 6)]"
  by code_simp

text \<open>
  C3.  In a pass of the loop in which the expression matched \<open>link\<close> and
  line 107 found it at \<open>found\<close>: if the line starts with \<open>--- a/\<close> or \<open>+++ b/\<close>
  and \<open>found\<close> is 4, or the line starts with \<open>diff --git\<close> and \<open>link\<close> starts with
  \<open>a/\<close> or \<open>b/\<close>, the match of that pass is \<open>link\<close> without its first two
  characters, at \<open>found + 2\<close>.  The line \<open>--- a/src/foo.ts\<close> yields the one match
  \<open>src/foo.ts\<close> at 6, and the link emitted for it (here from the cache) spans
  the columns 7 to 17.
\<close>

theorem diff_prefix_stripped:
  "(map_option m_text (rexExec (localLinkRegex os) text lastIndex) = Some link \<and> link \<noteq> [] \<and>
    indexOf text link (nat (stringIndex + 1)) = Some found \<and>
    (((startsWith text ''--- a/'' \<or> startsWith text ''+++ b/'') \<and> found = 4) \<or>
     (startsWith text ''diff --git'' \<and> (startsWith link ''a/'' \<or> startsWith link ''b/''))) \<longrightarrow>
      scanFrom os text lastIndex stringIndex =
        (drop 2 link, found + 2) # scanFrom os text (found + length link) (int (found + 2))) \<and>
   scan Linux ''--- a/src/foo.ts'' = [(''src/foo.ts'', 6)] \<and>
   fst (detect exampleEnv 0 ''--- a/src/foo.ts'' unixDetector diffWorld) =
     Inr [\<lparr>l_text = ''src/foo.ts'', l_uri = ''file:///w/src/foo.ts'',
           l_bufferRange = ((7, 1), (17, 1)), l_type = LocalFile\<rparr>]"
proof -
  let ?T = "''--- a/src/foo.ts''"
  have a: "map_option m_text (rexExec (localLinkRegex os) text lastIndex) = Some link \<and> link \<noteq> [] \<and>
    indexOf text link (nat (stringIndex + 1)) = Some found \<and>
    (((startsWith text ''--- a/'' \<or> startsWith text ''+++ b/'') \<and> found = 4) \<or>
     (startsWith text ''diff --git'' \<and> (startsWith link ''a/'' \<or> startsWith link ''b/''))) \<longrightarrow>
      scanFrom os text lastIndex stringIndex =
        (drop 2 link, found + 2) # scanFrom os text (found + length link) (int (found + 2))"
  proof (intro impI, elim conjE)
    assume h: "map_option m_text (rexExec (localLinkRegex os) text lastIndex) = Some link"
      "link \<noteq> []" "indexOf text link (nat (stringIndex + 1)) = Some found"
      "((startsWith text ''--- a/'' \<or> startsWith text ''+++ b/'') \<and> found = 4) \<or>
       (startsWith text ''diff --git'' \<and> (startsWith link ''a/'' \<or> startsWith link ''b/''))"
    from h(1) obtain m where m: "rexExec (localLinkRegex os) text lastIndex = Some m" "m_text m = link"
      by auto
    from h(4) have d: "diffAdjust text link found = (drop 2 link, found + 2)"
      unfolding diffAdjust_def by (simp only: if_True)
    show "scanFrom os text lastIndex stringIndex =
        (drop 2 link, found + 2) # scanFrom os text (found + length link) (int (found + 2))"
      by (subst scanFrom.simps) (simp add: m h(2,3) d)
  qed
  have s: "scan Linux ?T = [(''src/foo.ts'', 6)]" by code_simp
  have b: "?T \<noteq> []" "length ?T \<le> MaxLineLength" by (simp_all add: MaxLineLength_def)
  have u: "detect exampleEnv 0 ?T unixDetector diffWorld =
             (case processMatches exampleEnv (fst (resetCacheTTL 0 unixDetector diffWorld))
                     (scan (d_os unixDetector) ?T) (snd (resetCacheTTL 0 unixDetector diffWorld)) [] of
                (res, w2) \<Rightarrow> (res, fst (resetCacheTTL 0 unixDetector diffWorld), w2))"
    by (rule detect_unfold[OF _ b]) simp
  have c: "fst (detect exampleEnv 0 ?T unixDetector diffWorld) =
     Inr [\<lparr>l_text = ''src/foo.ts'', l_uri = ''file:///w/src/foo.ts'',
           l_bufferRange = ((7, 1), (17, 1)), l_type = LocalFile\<rparr>]"
    using s by (simp add: u) (simp add: ex_defs diffWorld_def)
  from a s c show ?thesis by blast
qed

theorem diff_prefix_stripped_witness:
  "map_option m_text (rexExec (localLinkRegex Linux) ''--- a/src/foo.ts'' 0) = Some ''a/src/foo.ts'' \<and>
   indexOf ''--- a/src/foo.ts'' ''a/src/foo.ts'' (nat (- 1 + 1)) = Some 4 \<and>
   startsWith ''--- a/src/foo.ts'' ''--- a/'' \<and>
   scanFrom Linux ''--- a/src/foo.ts'' 0 (- 1) =
     (''src/foo.ts'', 6) # scanFrom Linux ''--- a/src/foo.ts'' 16 6 \<and>
   map_option m_text (rexExec (localLinkRegex Linux) ''diff --git a/foo/bar b/foo/bar'' 0) =
     Some ''a/foo/bar'' \<and>
   indexOf ''diff --git a/foo/bar b/foo/bar'' ''a/foo/bar'' (nat (- 1 + 1)) = Some 11 \<and>
   startsWith ''diff --git a/foo/bar b/foo/bar'' ''diff --git'' \<and> startsWith ''a/foo/bar'' ''a/'' \<and>
   scanFrom Linux ''diff --git a/foo/bar b/foo/bar'' 0 (- 1) =
     (''foo/bar'', 13) # scanFrom Linux ''diff --git a/foo/bar b/foo/bar'' 20 13"
proof -
  have h1: "map_option m_text (rexExec (localLinkRegex Linux) ''--- a/src/foo.ts'' 0) =
              Some ''a/src/foo.ts''"
    by code_simp
  have h2: "indexOf ''--- a/src/foo.ts'' ''a/src/foo.ts'' (nat (- 1 + 1)) = Some 4"
    by code_simp
  have h3: "startsWith ''--- a/src/foo.ts'' ''--- a/''" by (simp add: startsWith_def)
  have g1: "map_option m_text (rexExec (localLinkRegex Linux) ''diff --git a/foo/bar b/foo/bar'' 0) =
              Some ''a/foo/bar''"
    by code_simp
  have g2: "indexOf ''diff --git a/foo/bar b/foo/bar'' ''a/foo/bar'' (nat (- 1 + 1)) = Some 11"
    by code_simp
  have g3: "startsWith ''diff --git a/foo/bar b/foo/bar'' ''diff --git'' \<and> startsWith ''a/foo/bar'' ''a/''"
    by (simp add: startsWith_def)
  from h1 h2 h3
    diff_prefix_stripped[of Linux "''--- a/src/foo.ts''" 0 "''a/src/foo.ts''" "- 1" 4]
  have r1: "scanFrom Linux ''--- a/src/foo.ts'' 0 (- 1) =
     (''src/foo.ts'', 6) # scanFrom Linux ''--- a/src/foo.ts'' 16 6"
    by simp
  from g1 g2 g3
    diff_prefix_stripped[of Linux "''diff --git a/foo/bar b/foo/bar''" 0 "''a/foo/bar''" "- 1" 11]
  have r2: "scanFrom Linux ''diff --git a/foo/bar b/foo/bar'' 0 (- 1) =
     (''foo/bar'', 13) # scanFrom Linux ''diff --git a/foo/bar b/foo/bar'' 20 13"
    by simp
  from h1 h2 h3 g1 g2 g3 r1 r2 show ?thesis by blast
qed

text \<open>
  C7, as stated, fails: in the match of \<open>foo/bar.ts:45:9\<close> the group with the
  number \<open>unixLineAndColumnMatchIndex\<close> (and, with the Windows grammar, the one
  with the number \<open>winLineAndColumnMatchIndex\<close>) is not set at all, because the
  sixth alternative matched and that group belongs to the first.
\<close>

theorem match_index_counterexample:
  "groupsOf Linux ''foo/bar.ts:45:9'' [unixLineAndColumnMatchIndex] = Some [None] \<and>
   groupsOf Windows ''foo/bar.ts:45:9'' [winLineAndColumnMatchIndex] = Some [None]"
  by code_simp

text \<open>
  C7, amended.  \<open>lineAndColumnClause\<close> is an alternation of exactly six
  sub-patterns with exactly six capture groups each.  The path clause has six
  groups on POSIX and seven on Windows, so the group around the whole suffix
  is number 7 on POSIX and 8 on Windows, and the constants 11 and 12 are the
  number of the fourth group of the first alternative.  For every \<open>k\<close> from 0
  to 5, the group \<open>11 + 6 * k\<close> (\<open>12 + 6 * k\<close> on Windows) and the group two
  after it are groups \<open>(\d+)\<close> of the pattern, and they are the line number and
  the column of alternative \<open>k\<close>: in the match of the example line of
  alternative \<open>k\<close>, the suffix group holds the whole suffix, the group
  \<open>11 + 6 * k\<close> (\<open>12 + 6 * k\<close>) holds the line number 45, the group two after
  it holds the column 9, and the corresponding groups of the other five
  alternatives are not set.  For \<open>foo/bar.ts:45:9\<close> the suffix group holds
  \<open>:45:9\<close>, the group \<open>11 + 6 * 5\<close> (\<open>12 + 6 * 5\<close>) holds \<open>45\<close> and the group
  two later holds \<open>9\<close>.
\<close>

theorem match_index_layout:
  "length lineAndColumnAlternatives = 6 \<and>
   map ngroups lineAndColumnAlternatives = replicate 6 lineAndColumnClauseGroupCount \<and>
   ngroups lineAndColumnClause = 6 * lineAndColumnClauseGroupCount \<and>
   unixLineAndColumnMatchIndex = ngroups unixLocalLinkClause + 1 + 4 \<and>
   winLineAndColumnMatchIndex = ngroups winLocalLinkClause + 1 + 4 \<and>
   groupAt 1 (localLinkRegex Linux) (ngroups unixLocalLinkClause + 1) = Some lineAndColumnClause \<and>
   groupAt 1 (localLinkRegex Windows) (ngroups winLocalLinkClause + 1) = Some lineAndColumnClause \<and>
   map (groupAt 1 (localLinkRegex Linux))
       (tl (layoutIndices (ngroups unixLocalLinkClause + 1) unixLineAndColumnMatchIndex)) =
     replicate 12 (Some (Plus digit)) \<and>
   map (groupAt 1 (localLinkRegex Windows))
       (tl (layoutIndices (ngroups winLocalLinkClause + 1) winLineAndColumnMatchIndex)) =
     replicate 12 (Some (Plus digit)) \<and>
   map (\<lambda>k. groupsOf Linux (suffixExamples ! k)
                (layoutIndices (ngroups unixLocalLinkClause + 1) unixLineAndColumnMatchIndex))
       [0..<6] = map layoutRow [0..<6] \<and>
   map (\<lambda>k. groupsOf Windows (suffixExamples ! k)
                (layoutIndices (ngroups winLocalLinkClause + 1) winLineAndColumnMatchIndex))
       [0..<6] = map layoutRow [0..<6] \<and>
   groupsOf Linux ''foo/bar.ts:45:9''
     [ngroups unixLocalLinkClause + 1,
      unixLineAndColumnMatchIndex + lineAndColumnClauseGroupCount * 5,
      unixLineAndColumnMatchIndex + lineAndColumnClauseGroupCount * 5 + 2] =
     Some [Some '':45:9'', Some ''45'', Some ''9''] \<and>
   groupsOf Windows ''foo/bar.ts:45:9''
     [ngroups winLocalLinkClause + 1,
      winLineAndColumnMatchIndex + lineAndColumnClauseGroupCount * 5,
      winLineAndColumnMatchIndex + lineAndColumnClauseGroupCount * 5 + 2] =
     Some [Some '':45:9'', Some ''45'', Some ''9'']"
proof -
  have counts: "length lineAndColumnAlternatives = 6 \<and>
     map ngroups lineAndColumnAlternatives = replicate 6 lineAndColumnClauseGroupCount \<and>
     ngroups lineAndColumnClause = 6 * lineAndColumnClauseGroupCount \<and>
     unixLineAndColumnMatchIndex = ngroups unixLocalLinkClause + 1 + 4 \<and>
     winLineAndColumnMatchIndex = ngroups winLocalLinkClause + 1 + 4"
    by code_simp
  have whole: "groupAt 1 (localLinkRegex Linux) (ngroups unixLocalLinkClause + 1) =
                 Some lineAndColumnClause \<and>
     groupAt 1 (localLinkRegex Windows) (ngroups winLocalLinkClause + 1) = Some lineAndColumnClause"
    by code_simp
  have digitsU: "map (groupAt 1 (localLinkRegex Linux))
       (tl (layoutIndices (ngroups unixLocalLinkClause + 1) unixLineAndColumnMatchIndex)) =
     replicate 12 (Some (Plus digit))"
    by code_simp
  have digitsW: "map (groupAt 1 (localLinkRegex Windows))
       (tl (layoutIndices (ngroups winLocalLinkClause + 1) winLineAndColumnMatchIndex)) =
     replicate 12 (Some (Plus digit))"
    by code_simp
  have rowsU: "map (\<lambda>k. groupsOf Linux (suffixExamples ! k)
                (layoutIndices (ngroups unixLocalLinkClause + 1) unixLineAndColumnMatchIndex))
       [0..<6] = map layoutRow [0..<6]"
    by code_simp
  have rowsW: "map (\<lambda>k. groupsOf Windows (suffixExamples ! k)
                (layoutIndices (ngroups winLocalLinkClause + 1) winLineAndColumnMatchIndex))
       [0..<6] = map layoutRow [0..<6]"
    by code_simp
  have fooU: "groupsOf Linux ''foo/bar.ts:45:9''
     [ngroups unixLocalLinkClause + 1,
      unixLineAndColumnMatchIndex + lineAndColumnClauseGroupCount * 5,
      unixLineAndColumnMatchIndex + lineAndColumnClauseGroupCount * 5 + 2] =
     Some [Some '':45:9'', Some ''45'', Some ''9'']"
    by code_simp
  have fooW: "groupsOf Windows ''foo/bar.ts:45:9''
     [ngroups winLocalLinkClause + 1,
      winLineAndColumnMatchIndex + lineAndColumnClauseGroupCount * 5,
      winLineAndColumnMatchIndex + lineAndColumnClauseGroupCount * 5 + 2] =
     Some [Some '':45:9'', Some ''45'', Some ''9'']"
    by code_simp
  from counts whole digitsU digitsW rowsU rowsW fooU fooW show ?thesis
    by (simp only: simp_thms)
qed

section \<open>The timers of several detectors\<close>

lemma processLink_keeps_timers:
  assumes "processLink e d link br w = (r, w')"
  shows "timers w' = timers w \<and> nextHandle w' = nextHandle w"
proof -
  obtain r0 w0 where v: "validateLinkCandidates e (linkCandidates link) w = (r0, w0)"
    by (cases "validateLinkCandidates e (linkCandidates link) w")
  from validate_keeps[OF v] have "timers w0 = timers w" "nextHandle w0 = nextHandle w"
    by simp_all
  with assms v show ?thesis
    by (auto simp: processLink_def split: option.splits sum.splits if_splits)
qed

lemma processMatches_keeps_timers:
  "processMatches e d ms0 w links = (r, w') \<Longrightarrow>
     timers w' = timers w \<and> nextHandle w' = nextHandle w"
proof (induction ms0 arbitrary: w links)
  case Nil
  then show ?case by simp
next
  case (Cons m rest)
  obtain link si where m: "m = (link, si)" by (cases m)
  obtain r1 w1 where p: "processLink e d link
      (convertLinkRangeToBuffer e (si + 1) (si + length link + 1)) w = (r1, w1)"
    by (cases "processLink e d link (convertLinkRangeToBuffer e (si + 1) (si + length link + 1)) w")
  note k = processLink_keeps_timers[OF p]
  show ?case
  proof (cases r1)
    case (Inl err)
    with Cons.prems m p k show ?thesis by simp
  next
    case (Inr new)
    with Cons.prems m p have "processMatches e d rest w1 (links @ new) = (r, w')" by simp
    from Cons.IH[OF this] k show ?thesis by simp
  qed
qed

text \<open>What one call of \<open>detect\<close> does to the timers: with caching enabled it
  removes the timer whose handle the detector holds, if it holds one, and adds
  a timer due 10 seconds later, whose handle it stores; no other timer is
  touched.  With caching disabled it touches no timer.\<close>

lemma detect_timers:
  assumes "detect e now line d w = (r, d', w')"
  shows "(if d_enableCaching d
          then d' = d\<lparr>d_cacheTilTimeout := nextHandle w\<rparr> \<and>
               timers w' =
                 (if d_cacheTilTimeout d \<noteq> 0
                  then filter (\<lambda>t. fst t \<noteq> d_cacheTilTimeout d) (timers w) else timers w)
                 @ [(nextHandle w, now + 10000)] \<and>
               nextHandle w' = Suc (nextHandle w)
          else d' = d \<and> timers w' = timers w \<and> nextHandle w' = nextHandle w)"
proof -
  obtain d1 w1 where rr: "resetCacheTTL now d w = (d1, w1)"
    by (cases "resetCacheTTL now d w")
  have t: "timers w' = timers w1 \<and> nextHandle w' = nextHandle w1 \<and> d' = d1"
  proof (cases "line = [] \<or> length line > MaxLineLength")
    case True
    with assms rr show ?thesis by (auto simp: detect_def)
  next
    case False
    then have f: "line \<noteq> []" "length line \<le> MaxLineLength" by auto
    from detect_unfold[OF rr f, of e] assms
    obtain res where "processMatches e d1 (scan (d_os d) line) w1 [] = (res, w')" "d' = d1"
      by (auto split: prod.splits)
    with processMatches_keeps_timers show ?thesis by blast
  qed
  from rr have "(if d_enableCaching d
          then d1 = d\<lparr>d_cacheTilTimeout := nextHandle w\<rparr> \<and>
               timers w1 =
                 (if d_cacheTilTimeout d \<noteq> 0
                  then filter (\<lambda>t. fst t \<noteq> d_cacheTilTimeout d) (timers w) else timers w)
                 @ [(nextHandle w, now + 10000)] \<and>
               nextHandle w1 = Suc (nextHandle w)
          else d1 = d \<and> timers w1 = timers w \<and> nextHandle w1 = nextHandle w)"
    by (auto simp: resetCacheTTL_def setTimeout_def clearTimeout_def Let_def split: if_splits)
  with t show ?thesis by simp
qed

lemma in_set_list_update:
  "x \<in> set xs \<Longrightarrow> x \<noteq> xs ! i \<Longrightarrow> x \<in> set (xs[i := y])"
  by (metis in_set_conv_nth length_list_update nth_list_update_neq)

lemma sysInv_start: "sysInv (startSystem ds)"
  by (auto simp: sysInv_def startSystem_def freshWorld_def)

lemma sysInv_tick: "sysInv s \<Longrightarrow> sysInv (stepSys e s (Tick now))"
  by (auto simp: sysInv_def runTimers_def distinct_map_filter)

lemma sysInv_detect:
  assumes inv: "sysInv s"
  shows "sysInv (stepSys e s (Detect i now line))"
proof (cases "i < length (dets s)")
  case False
  with inv show ?thesis by simp
next
  case True
  let ?d = "dets s ! i" and ?w = "shared s"
  obtain r d' w' where dt: "detect e now line ?d ?w = (r, d', w')"
    by (cases "detect e now line ?d ?w") auto
  with True have st: "stepSys e s (Detect i now line) = \<lparr>dets = (dets s)[i := d'], shared = w'\<rparr>"
    by simp
  note eff = detect_timers[OF dt]
  show ?thesis
  proof (cases "d_enableCaching ?d")
    case False
    with eff have "d' = ?d" "timers w' = timers ?w" "nextHandle w' = nextHandle ?w" by simp_all
    with inv st show ?thesis by (simp add: sysInv_def)
  next
    case c: True
    let ?n = "nextHandle ?w"
    let ?T0 = "if d_cacheTilTimeout ?d \<noteq> 0
               then filter (\<lambda>t. fst t \<noteq> d_cacheTilTimeout ?d) (timers ?w) else timers ?w"
    from eff c have e1: "d' = ?d\<lparr>d_cacheTilTimeout := ?n\<rparr>"
      and e2: "timers w' = ?T0 @ [(?n, now + 10000)]"
      and e3: "nextHandle w' = Suc ?n" by simp_all
    from inv have i1: "0 < ?n"
      and i2: "\<forall>t \<in> set (timers ?w). 0 < fst t \<and> fst t < ?n"
      and i3: "\<forall>d \<in> set (dets s). d_cacheTilTimeout d < ?n"
      and i4: "distinct (map fst (timers ?w))"
      and i5: "\<forall>t \<in> set (timers ?w). \<exists>d \<in> set (dets s). d_cacheTilTimeout d = fst t"
      by (simp_all add: sysInv_def)
    have sub: "set ?T0 \<subseteq> set (timers ?w)" by auto
    have dT0: "distinct (map fst ?T0)" using i4 by (simp add: distinct_map_filter)
    have a1: "0 < nextHandle w'" using e3 by simp
    have a2: "\<forall>t \<in> set (timers w'). 0 < fst t \<and> fst t < nextHandle w'"
    proof
      fix t assume "t \<in> set (timers w')"
      with e2 have "t = (?n, now + 10000) \<or> t \<in> set ?T0" by auto
      with sub i1 i2 e3 show "0 < fst t \<and> fst t < nextHandle w'"
        by (auto simp: less_Suc_eq)
    qed
    have a3: "\<forall>d \<in> set ((dets s)[i := d']). d_cacheTilTimeout d < nextHandle w'"
    proof
      fix d assume "d \<in> set ((dets s)[i := d'])"
      then have "d = d' \<or> d \<in> set (dets s)"
        using set_update_subset_insert[of "dets s" i d'] by auto
      with e1 e3 i3 show "d_cacheTilTimeout d < nextHandle w'"
        by (auto simp: less_Suc_eq)
    qed
    have fresh: "?n \<notin> fst ` set ?T0"
    proof
      assume "?n \<in> fst ` set ?T0"
      then obtain t where "t \<in> set ?T0" "fst t = ?n" by auto
      with sub i2 show False by force
    qed
    have a4: "distinct (map fst (timers w'))"
      unfolding e2 using dT0 fresh by simp
    have a5: "\<forall>t \<in> set (timers w'). \<exists>d \<in> set ((dets s)[i := d']). d_cacheTilTimeout d = fst t"
    proof
      fix t assume "t \<in> set (timers w')"
      with e2 have "t = (?n, now + 10000) \<or> t \<in> set ?T0" by auto
      then show "\<exists>d \<in> set ((dets s)[i := d']). d_cacheTilTimeout d = fst t"
      proof
        assume tn: "t = (?n, now + 10000)"
        from True have "d' \<in> set ((dets s)[i := d'])"
          by (simp add: set_update_memI)
        moreover from e1 tn have "d_cacheTilTimeout d' = fst t" by simp
        ultimately show ?thesis by blast
      next
        assume t0: "t \<in> set ?T0"
        with sub have tw: "t \<in> set (timers ?w)" by blast
        with i5 obtain d0 where d0: "d0 \<in> set (dets s)" "d_cacheTilTimeout d0 = fst t" by blast
        have ne: "fst t \<noteq> d_cacheTilTimeout ?d"
        proof (cases "d_cacheTilTimeout ?d = 0")
          case True
          from tw i2 have "0 < fst t" by blast
          with True show ?thesis by simp
        next
          case False
          with t0 show ?thesis by auto
        qed
        with d0 have "d0 \<noteq> ?d" by auto
        from in_set_list_update[OF d0(1) this] d0(2) show ?thesis by blast
      qed
    qed
    from a1 a2 a3 a4 a5 st show ?thesis by (simp add: sysInv_def)
  qed
qed

lemma sysInv_run: "sysInv s \<Longrightarrow> sysInv (runSys e s evs)"
  unfolding runSys_def
proof (induction evs arbitrary: s)
  case Nil
  then show ?case by simp
next
  case (Cons ev evs)
  have "sysInv (stepSys e s ev)"
    using Cons.prems by (cases ev) (simp_all only: sysInv_detect sysInv_tick)
  from Cons.IH[OF this] show ?case by simp
qed

lemma stepSys_length: "length (dets (stepSys e s ev)) = length (dets s)"
  by (cases ev) (auto split: prod.splits)

lemma runSys_length: "length (dets (runSys e s evs)) = length (dets s)"
  unfolding runSys_def
  by (induction evs arbitrary: s) (simp_all add: stepSys_length)

lemma runSys_Nil: "runSys e s [] = s"
  by (simp add: runSys_def)

lemma runSys_Cons: "runSys e s (ev # evs) = runSys e (stepSys e s ev) evs"
  by (simp add: runSys_def)

lemma runSys_append: "runSys e (runSys e s evs) evs2 = runSys e s (evs @ evs2)"
  by (simp add: runSys_def)

lemma runSys_snoc: "stepSys e (runSys e s evs) ev = runSys e s (evs @ [ev])"
  by (simp add: runSys_def)

lemma stepSys_detect_other:
  assumes "j \<noteq> i"
  shows "dets (stepSys e s (Detect j now line)) ! i = dets s ! i"
  using assms by (auto split: prod.splits)

lemma stepSys_detect_self:
  assumes "i < length (dets s)" and "detect e now line (dets s ! i) (shared s) = (r, d', w')"
  shows "dets (stepSys e s (Detect i now line)) ! i = d' \<and> shared (stepSys e s (Detect i now line)) = w'"
  using assms by simp

lemma stepSys_caching:
  "d_enableCaching (dets (stepSys e s ev) ! i) = d_enableCaching (dets s ! i)"
proof (cases ev)
  case (Detect j now line)
  show ?thesis
  proof (cases "j = i \<and> i < length (dets s)")
    case True
    obtain r d' w' where dt: "detect e now line (dets s ! i) (shared s) = (r, d', w')"
      by (cases "detect e now line (dets s ! i) (shared s)") auto
    from detect_timers[OF dt] have "d_enableCaching d' = d_enableCaching (dets s ! i)"
      by (auto split: if_splits)
    with stepSys_detect_self[OF _ dt] True Detect show ?thesis by simp
  next
    case False
    with Detect show ?thesis by (auto split: prod.splits)
  qed
next
  case (Tick now)
  then show ?thesis by simp
qed

lemma runSys_caching:
  "d_enableCaching (dets (runSys e s evs) ! i) = d_enableCaching (dets s ! i)"
  by (induction evs arbitrary: s) (simp_all add: runSys_Nil runSys_Cons stepSys_caching)

lemma handlesDistinct_start: "handlesDistinct (startSystem ds)"
  by (simp add: handlesDistinct_def startSystem_def)

lemma handlesDistinct_step:
  assumes inv: "sysInv s" and hd: "handlesDistinct s"
  shows "handlesDistinct (stepSys e s ev)"
proof (cases ev)
  case (Tick now)
  with hd show ?thesis by (simp add: handlesDistinct_def)
next
  case (Detect k now line)
  show ?thesis
  proof (cases "k < length (dets s)")
    case False
    with hd Detect show ?thesis by simp
  next
    case True
    obtain r d' w' where dt: "detect e now line (dets s ! k) (shared s) = (r, d', w')"
      by (cases "detect e now line (dets s ! k) (shared s)") auto
    with True Detect have st: "dets (stepSys e s ev) = (dets s)[k := d']" by simp
    from inv have lt: "\<forall>d \<in> set (dets s). d_cacheTilTimeout d < nextHandle (shared s)"
      by (simp add: sysInv_def)
    from detect_timers[OF dt] have
      h': "d_cacheTilTimeout d' = nextHandle (shared s) \<or> d' = dets s ! k"
      by (auto split: if_splits)
    show ?thesis
      unfolding handlesDistinct_def st
    proof (intro allI impI)
      fix i j
      assume ij: "i < length ((dets s)[k := d'])" "j < length ((dets s)[k := d'])" "i \<noteq> j"
        and nz: "d_cacheTilTimeout ((dets s)[k := d'] ! i) \<noteq> 0"
      from ij have il: "i < length (dets s)" and jl: "j < length (dets s)" by simp_all
      from lt il jl have bi: "d_cacheTilTimeout (dets s ! i) < nextHandle (shared s)"
        and bj: "d_cacheTilTimeout (dets s ! j) < nextHandle (shared s)"
        by (simp_all add: nth_mem)
      from h' show "d_cacheTilTimeout ((dets s)[k := d'] ! i) \<noteq>
                    d_cacheTilTimeout ((dets s)[k := d'] ! j)"
      proof
        assume n: "d_cacheTilTimeout d' = nextHandle (shared s)"
        show ?thesis
        proof (cases "i = k")
          case True
          with ij il n bj show ?thesis by simp
        next
          case ik: False
          show ?thesis
          proof (cases "j = k")
            case True
            with ik il jl n bi show ?thesis by simp
          next
            case False
            with ik hd il jl ij(3) nz show ?thesis by (simp add: handlesDistinct_def)
          qed
        qed
      next
        assume "d' = dets s ! k"
        then have "(dets s)[k := d'] = dets s" by simp
        with hd il jl ij(3) nz show ?thesis by (simp add: handlesDistinct_def)
      qed
    qed
  qed
qed

lemma sysInv_step: "sysInv s \<Longrightarrow> sysInv (stepSys e s ev)"
  by (cases ev) (simp_all only: sysInv_detect sysInv_tick)

lemma handlesDistinct_run:
  "sysInv s \<Longrightarrow> handlesDistinct s \<Longrightarrow> handlesDistinct (runSys e s evs)"
proof (induction evs arbitrary: s)
  case Nil
  then show ?case by (simp add: runSys_Nil)
next
  case (Cons ev evs)
  from Cons.IH[OF sysInv_step[OF Cons.prems(1)] handlesDistinct_step[OF Cons.prems]]
  show ?case by (simp add: runSys_Cons)
qed

text \<open>After a call of \<open>detect\<close> with caching enabled, the detector holds the
  handle of a timer that is armed and due 10 seconds after the call.\<close>

lemma detect_arms:
  assumes "i < length (dets s)" and "d_enableCaching (dets s ! i)"
  shows "(d_cacheTilTimeout (dets (stepSys e s (Detect i now line)) ! i), now + 10000)
           \<in> set (timers (shared (stepSys e s (Detect i now line))))"
proof -
  obtain r d' w' where dt: "detect e now line (dets s ! i) (shared s) = (r, d', w')"
    by (cases "detect e now line (dets s ! i) (shared s)") auto
  from detect_timers[OF dt] assms(2) have
    "d_cacheTilTimeout d' = nextHandle (shared s)"
    "(nextHandle (shared s), now + 10000) \<in> set (timers w')"
    by simp_all
  with stepSys_detect_self[OF assms(1) dt] show ?thesis by simp
qed

text \<open>A quiet event neither cancels nor runs the timer that the detector
  \<open>i\<close> holds.\<close>

lemma timer_survives_step:
  assumes inv: "sysInv s" and hd: "handlesDistinct s" and il: "i < length (dets s)"
    and tm: "(d_cacheTilTimeout (dets s ! i), due) \<in> set (timers (shared s))"
    and q: "quietFor i due ev"
  shows "(d_cacheTilTimeout (dets (stepSys e s ev) ! i), due) \<in> set (timers (shared (stepSys e s ev)))"
proof (cases ev)
  case (Tick now)
  with q have "now < due" by simp
  with tm Tick show ?thesis by (auto simp: runTimers_def)
next
  case (Detect j now line)
  with q have ji: "j \<noteq> i" by simp
  then have same: "dets (stepSys e s ev) ! i = dets s ! i"
    unfolding Detect by (rule stepSys_detect_other)
  show ?thesis
  proof (cases "j < length (dets s)")
    case False
    with Detect tm show ?thesis by simp
  next
    case True
    obtain r d' w' where dt: "detect e now line (dets s ! j) (shared s) = (r, d', w')"
      by (cases "detect e now line (dets s ! j) (shared s)") auto
    with True Detect have sh: "shared (stepSys e s ev) = w'" by simp
    from inv tm have pos: "0 < d_cacheTilTimeout (dets s ! i)"
      by (auto simp: sysInv_def)
    with hd il True ji have ne: "d_cacheTilTimeout (dets s ! i) \<noteq> d_cacheTilTimeout (dets s ! j)"
      by (auto simp: handlesDistinct_def)
    from detect_timers[OF dt] tm ne have
      "(d_cacheTilTimeout (dets s ! i), due) \<in> set (timers w')"
      by (auto split: if_splits)
    with same sh show ?thesis by simp
  qed
qed

lemma timer_survives_run:
  assumes "sysInv s" and "handlesDistinct s" and "i < length (dets s)"
    and "(d_cacheTilTimeout (dets s ! i), due) \<in> set (timers (shared s))"
    and "list_all (quietFor i due) evs"
  shows "(d_cacheTilTimeout (dets (runSys e s evs) ! i), due) \<in> set (timers (shared (runSys e s evs)))"
  using assms
proof (induction evs arbitrary: s)
  case Nil
  then show ?case by (simp add: runSys_Nil)
next
  case (Cons ev evs)
  from Cons.prems(5) have q: "quietFor i due ev" "list_all (quietFor i due) evs" by simp_all
  have l: "i < length (dets (stepSys e s ev))"
    using Cons.prems(3) by (simp add: stepSys_length)
  from Cons.IH[OF sysInv_step[OF Cons.prems(1)] handlesDistinct_step[OF Cons.prems(1,2)] l
         timer_survives_step[OF Cons.prems(1,2,3,4) q(1)] q(2)]
  show ?case by (simp add: runSys_Cons)
qed

text \<open>Time passing: when a timer is due the cache is emptied and the timers
  that were due are gone; when none is due nothing changes.\<close>

lemma tick_due:
  assumes "(h, due) \<in> set (timers (shared s))" and "due \<le> now"
  shows "cachedValidatedLinks (shared (stepSys e s (Tick now))) = Map.empty \<and>
         (\<forall>tm \<in> set (timers (shared (stepSys e s (Tick now)))). now < snd tm)"
proof -
  from assms have "list_ex (\<lambda>t. snd t \<le> now) (timers (shared s))"
    by (force simp: list_ex_iff)
  then show ?thesis by (simp add: runTimers_def)
qed

lemma tick_not_due:
  assumes "\<forall>tm \<in> set (timers (shared s)). now < snd tm"
  shows "stepSys e s (Tick now) = s"
proof -
  from assms have "\<not> list_ex (\<lambda>t. snd t \<le> now) (timers (shared s))"
    by (auto simp: list_ex_iff)
  then show ?thesis by (simp add: runTimers_def)
qed

text \<open>
  C9, as stated, fails.  With two detectors, a call of \<open>detect\<close> on the first
  at time 0 and on the second at time 1 leave two timers armed, with the
  handles 1 and 2: the second call did not cancel the timer of the first.  And
  when the second detector runs a pass at time 9000 that caches \<open>a/b\<close>, the
  timer of the first detector clears the shared cache at time 10000, one second
  after that pass.
\<close>

theorem two_detectors_two_timers:
  "timers (shared (runSys exampleEnv (startSystem [unixDetector, unixDetector])
                     [Detect 0 0 [], Detect 1 1 []])) = [(1, 10000), (2, 10001)] \<and>
   cachedValidatedLinks
       (shared (runSys exampleEnv (startSystem [unixDetector, unixDetector])
                  [Detect 0 0 [], Detect 1 9000 ''a/b''])) ''a/b'' =
     Some (Some \<lparr>v_uri = ''file:///w/a/b'', v_link = ''a/b'', v_isDirectory = False\<rparr>) \<and>
   cachedValidatedLinks
       (shared (runSys exampleEnv (startSystem [unixDetector, unixDetector])
                  [Detect 0 0 [], Detect 1 9000 ''a/b'', Tick 10000])) ''a/b'' = None \<and>
   timers (shared (runSys exampleEnv (startSystem [unixDetector, unixDetector])
                     [Detect 0 0 [], Detect 1 9000 ''a/b'', Tick 10000])) = [(2, 19000)]"
proof -
  have s: "scan Linux ''a/b'' = [(''a/b'', 0)]" by code_simp
  have b: "''a/b'' \<noteq> []" "length ''a/b'' \<le> MaxLineLength" by (simp_all add: MaxLineLength_def)
  have u: "detect exampleEnv now ''a/b'' d w =
             (case processMatches exampleEnv (fst (resetCacheTTL now d w)) (scan (d_os d) ''a/b'')
                     (snd (resetCacheTTL now d w)) [] of
                (res, w2) \<Rightarrow> (res, fst (resetCacheTTL now d w), w2))" for now d w
    by (rule detect_unfold[OF _ b]) simp
  have e0: "detect exampleEnv now [] d w =
              (Inr [], fst (resetCacheTTL now d w), snd (resetCacheTTL now d w))" for now d w
    by (simp add: detect_def split: prod.splits)
  show ?thesis
    using s by (simp add: runSys_def startSystem_def u e0) (simp add: ex_defs runTimers_def)
qed

text \<open>
  C9, amended.  In a process that started with no timer, after any sequence
  of \<open>detect\<close> calls on any of its detectors and of timers running, the armed
  timers have pairwise different handles, each is the handle that some detector
  holds in \<open>_cacheTilTimeout\<close>, and so there are at most as many armed timers as
  there are detectors: at most one for each.  A call of \<open>detect\<close> with caching
  enabled cancels the timer whose handle the same detector holds, if it holds
  one, leaves every other timer armed, and arms one new timer, due 10 seconds
  after the call, whose handle the detector then holds; with caching disabled
  it changes no timer.  The timer that a detector armed at time \<open>t\<close> stays
  armed through the \<open>detect\<close> calls of the other detectors and while time has
  not reached \<open>t + 10000\<close>; when time then reaches \<open>t + 10000\<close>, the shared
  cache is emptied and no timer that is due remains, whatever the other
  detectors did in between.  Time passing while no timer is due changes
  nothing.
\<close>

theorem one_timer_per_detector:
  "distinct (map fst (timers (shared (runSys e (startSystem ds) evs)))) \<and>
   fst ` set (timers (shared (runSys e (startSystem ds) evs)))
     \<subseteq> d_cacheTilTimeout ` set (dets (runSys e (startSystem ds) evs)) \<and>
   length (dets (runSys e (startSystem ds) evs)) = length ds \<and>
   length (timers (shared (runSys e (startSystem ds) evs))) \<le> length ds \<and>
   (case detect e now line d w of
      (r, d', w') \<Rightarrow>
        if d_enableCaching d
        then d' = d\<lparr>d_cacheTilTimeout := nextHandle w\<rparr> \<and>
             timers w' =
               (if d_cacheTilTimeout d \<noteq> 0
                then filter (\<lambda>t. fst t \<noteq> d_cacheTilTimeout d) (timers w) else timers w)
               @ [(nextHandle w, now + 10000)] \<and>
             nextHandle w' = Suc (nextHandle w)
        else d' = d \<and> timers w' = timers w \<and> nextHandle w' = nextHandle w) \<and>
   (i < length ds \<and> d_enableCaching (ds ! i) \<and> list_all (quietFor i (t + 10000)) quiet \<and>
    t + 10000 \<le> later \<longrightarrow>
      (d_cacheTilTimeout (dets (runSys e (startSystem ds) (evs @ Detect i t line # quiet)) ! i),
       t + 10000)
        \<in> set (timers (shared (runSys e (startSystem ds) (evs @ Detect i t line # quiet)))) \<and>
      cachedValidatedLinks
        (shared (runSys e (startSystem ds) (evs @ Detect i t line # quiet @ [Tick later]))) =
        Map.empty \<and>
      (\<forall>tm \<in> set (timers (shared (runSys e (startSystem ds)
                                      (evs @ Detect i t line # quiet @ [Tick later])))).
         later < snd tm)) \<and>
   ((\<forall>tm \<in> set (timers (shared (runSys e (startSystem ds) evs))). later < snd tm) \<longrightarrow>
      runSys e (startSystem ds) (evs @ [Tick later]) = runSys e (startSystem ds) evs)"
proof -
  let ?s = "runSys e (startSystem ds) evs"
  have inv: "sysInv ?s" by (rule sysInv_run[OF sysInv_start])
  then have d: "distinct (map fst (timers (shared ?s)))"
    by (simp add: sysInv_def)
  from inv have ex: "\<forall>t \<in> set (timers (shared ?s)). \<exists>d \<in> set (dets ?s). d_cacheTilTimeout d = fst t"
    by (simp add: sysInv_def)
  have sub: "fst ` set (timers (shared ?s)) \<subseteq> d_cacheTilTimeout ` set (dets ?s)"
  proof
    fix h assume "h \<in> fst ` set (timers (shared ?s))"
    then obtain t where t: "t \<in> set (timers (shared ?s))" "h = fst t" by auto
    with ex obtain d0 where "d0 \<in> set (dets ?s)" "d_cacheTilTimeout d0 = fst t" by blast
    with t show "h \<in> d_cacheTilTimeout ` set (dets ?s)" by force
  qed
  have len: "length (dets ?s) = length ds"
    by (simp add: runSys_length startSystem_def)
  have "length (timers (shared ?s)) = card (set (map fst (timers (shared ?s))))"
    using d by (simp add: distinct_card del: set_map)
  also have "\<dots> \<le> card (d_cacheTilTimeout ` set (dets ?s))"
    using sub by (simp add: card_mono)
  also have "\<dots> \<le> card (set (dets ?s))" by (rule card_image_le) simp
  also have "\<dots> \<le> length (dets ?s)" by (rule card_length)
  finally have bound: "length (timers (shared ?s)) \<le> length ds" using len by simp
  obtain r d' w' where dt: "detect e now line d w = (r, d', w')"
    by (cases "detect e now line d w") auto
  have step: "(case detect e now line d w of
      (r, d', w') \<Rightarrow>
        if d_enableCaching d
        then d' = d\<lparr>d_cacheTilTimeout := nextHandle w\<rparr> \<and>
             timers w' =
               (if d_cacheTilTimeout d \<noteq> 0
                then filter (\<lambda>t. fst t \<noteq> d_cacheTilTimeout d) (timers w) else timers w)
               @ [(nextHandle w, now + 10000)] \<and>
             nextHandle w' = Suc (nextHandle w)
        else d' = d \<and> timers w' = timers w \<and> nextHandle w' = nextHandle w)"
    using detect_timers[OF dt] dt by simp
  have clears: "i < length ds \<and> d_enableCaching (ds ! i) \<and> list_all (quietFor i (t + 10000)) quiet \<and>
    t + 10000 \<le> later \<longrightarrow>
      (d_cacheTilTimeout (dets (runSys e (startSystem ds) (evs @ Detect i t line # quiet)) ! i),
       t + 10000)
        \<in> set (timers (shared (runSys e (startSystem ds) (evs @ Detect i t line # quiet)))) \<and>
      cachedValidatedLinks
        (shared (runSys e (startSystem ds) (evs @ Detect i t line # quiet @ [Tick later]))) =
        Map.empty \<and>
      (\<forall>tm \<in> set (timers (shared (runSys e (startSystem ds)
                                      (evs @ Detect i t line # quiet @ [Tick later])))).
         later < snd tm)"
  proof (intro impI, elim conjE)
    assume il: "i < length ds" and c: "d_enableCaching (ds ! i)"
      and q: "list_all (quietFor i (t + 10000)) quiet" and due: "t + 10000 \<le> later"
    let ?s1 = "stepSys e ?s (Detect i t line)"
    let ?s2 = "runSys e ?s1 quiet"
    from il len have il0: "i < length (dets ?s)" by simp
    from il c have c0: "d_enableCaching (dets ?s ! i)"
      by (simp add: runSys_caching startSystem_def)
    have inv1: "sysInv ?s1" by (rule sysInv_step[OF inv])
    have hd1: "handlesDistinct ?s1"
      by (rule handlesDistinct_step[OF inv handlesDistinct_run[OF sysInv_start handlesDistinct_start]])
    have il1: "i < length (dets ?s1)" using il0 by (simp only: stepSys_length)
    from timer_survives_run[OF inv1 hd1 il1 detect_arms[OF il0 c0] q]
    have armed: "(d_cacheTilTimeout (dets ?s2 ! i), t + 10000) \<in> set (timers (shared ?s2))" .
    have e2: "runSys e (startSystem ds) (evs @ Detect i t line # quiet) = ?s2"
      by (simp add: runSys_def)
    have e3: "runSys e (startSystem ds) (evs @ Detect i t line # quiet @ [Tick later]) =
                stepSys e ?s2 (Tick later)"
      by (simp add: runSys_def)
    from armed tick_due[OF armed due]
    show "(d_cacheTilTimeout (dets (runSys e (startSystem ds) (evs @ Detect i t line # quiet)) ! i),
       t + 10000)
        \<in> set (timers (shared (runSys e (startSystem ds) (evs @ Detect i t line # quiet)))) \<and>
      cachedValidatedLinks
        (shared (runSys e (startSystem ds) (evs @ Detect i t line # quiet @ [Tick later]))) =
        Map.empty \<and>
      (\<forall>tm \<in> set (timers (shared (runSys e (startSystem ds)
                                      (evs @ Detect i t line # quiet @ [Tick later])))).
         later < snd tm)"
      unfolding e2 e3 by blast
  qed
  have idle: "(\<forall>tm \<in> set (timers (shared ?s)). later < snd tm) \<longrightarrow>
      runSys e (startSystem ds) (evs @ [Tick later]) = ?s"
    using tick_not_due[of ?s later e] by (simp add: runSys_def)
  from d sub len bound step clears idle show ?thesis by (simp only: simp_thms)
qed

theorem one_timer_per_detector_witness:
  "timers (shared (runSys exampleEnv (startSystem [unixDetector]) [Detect 0 0 [], Detect 0 5 []])) =
     [(2, 10005)] \<and>
   length (timers (shared (runSys exampleEnv (startSystem [unixDetector])
                             [Detect 0 0 [], Detect 0 5 []]))) \<le> length [unixDetector] \<and>
   d_enableCaching unixDetector \<and>
   timers (snd (snd (detect exampleEnv 7 [] unixDetector freshWorld))) = [(1, 10007)] \<and>
   (0::nat) < length [unixDetector, unixDetector] \<and>
   d_enableCaching ([unixDetector, unixDetector] ! 0) \<and>
   list_all (quietFor 0 (0 + 10000)) [Detect 1 9000 ''a/b'', Tick 9999] \<and>
   (0::nat) + 10000 \<le> 10000 \<and>
   cachedValidatedLinks
     (shared (runSys exampleEnv (startSystem [unixDetector, unixDetector])
                ([] @ Detect 0 0 [] # [Detect 1 9000 ''a/b'', Tick 9999] @ [Tick 10000]))) =
     Map.empty"
proof -
  have e0: "detect exampleEnv now [] d w =
              (Inr [], fst (resetCacheTTL now d w), snd (resetCacheTTL now d w))" for now d w
    by (simp add: detect_def split: prod.splits)
  have a: "timers (shared (runSys exampleEnv (startSystem [unixDetector])
                             [Detect 0 0 [], Detect 0 5 []])) = [(2, 10005)]"
    by (simp add: runSys_def startSystem_def e0) (simp add: ex_defs)
  have c: "d_enableCaching unixDetector" by (simp add: unixDetector_def)
  have h: "(0::nat) < length [unixDetector, unixDetector] \<and>
           d_enableCaching ([unixDetector, unixDetector] ! 0) \<and>
           list_all (quietFor 0 (0 + 10000)) [Detect 1 9000 ''a/b'', Tick 9999] \<and>
           (0::nat) + 10000 \<le> 10000"
    by (simp add: unixDetector_def)
  have b: "timers (snd (snd (detect exampleEnv 7 [] unixDetector freshWorld))) = [(1, 10007)]"
    by (simp add: e0) (simp add: ex_defs)
  from h one_timer_per_detector[where e = exampleEnv and ds = "[unixDetector, unixDetector]"
         and evs = "[]" and i = 0 and t = 0 and line = "[]"
         and quiet = "[Detect 1 9000 ''a/b'', Tick 9999]" and later = 10000]
  have g: "cachedValidatedLinks
     (shared (runSys exampleEnv (startSystem [unixDetector, unixDetector])
                ([] @ Detect 0 0 [] # [Detect 1 9000 ''a/b'', Tick 9999] @ [Tick 10000]))) =
     Map.empty"
    by blast
  from one_timer_per_detector[where e = exampleEnv and ds = "[unixDetector]"
         and evs = "[Detect 0 0 [], Detect 0 5 []]"]
  have l: "length (timers (shared (runSys exampleEnv (startSystem [unixDetector])
                             [Detect 0 0 [], Detect 0 5 []]))) \<le> length [unixDetector]"
    by blast
  from a l c b h g show ?thesis by (simp only: simp_thms)
qed

section \<open>The negative cache over time\<close>

lemma detect_scan:
  assumes "resetCacheTTL now d w = (d1, w1)"
  shows "detect e now line d w =
           (case processMatches e d1 (scan (d_os d) line) w1 [] of (res, w2) \<Rightarrow> (res, d1, w2))"
proof (cases "line = [] \<or> length line > MaxLineLength")
  case True
  with assms show ?thesis by (auto simp: detect_def scan_def)
next
  case False
  then have f: "line \<noteq> []" "length line \<le> MaxLineLength" by auto
  from detect_unfold[OF assms f] show ?thesis .
qed

lemma detect_cache_mono:
  assumes "detect e now line d w = (r, d', w')" and "cachedValidatedLinks w k = Some v"
  shows "cachedValidatedLinks w' k = Some v"
proof -
  obtain d1 w1 where rr: "resetCacheTTL now d w = (d1, w1)"
    by (cases "resetCacheTTL now d w")
  from resetCacheTTL_keeps[OF rr] assms(2) have c1: "cachedValidatedLinks w1 k = Some v" by simp
  from detect_scan[OF rr, of e line] assms(1)
  have "processMatches e d1 (scan (d_os d) line) w1 [] = (r, w')"
    by (auto split: prod.splits)
  from processMatches_cache_mono[OF this c1] show ?thesis .
qed

lemma validate_some:
  "validateLinkCandidates e cs w = (Inr (Some v), w') \<Longrightarrow>
     \<exists>c \<in> set cs. resolvePath e c = Resolved v"
  by (induction cs arbitrary: w) (auto simp: Let_def split: resolution.splits)

lemma processLink_cacheOk:
  assumes "processLink e d link br w = (r, w')" and "cacheOk e w"
  shows "cacheOk e w'"
proof (cases "cachedValidatedLinks w link")
  case (Some a)
  with assms(1) have "w' = w" by (auto simp: processLink_def split: option.splits)
  with assms(2) show ?thesis by simp
next
  case None
  obtain r0 w0 where v: "validateLinkCandidates e (linkCandidates link) w = (r0, w0)"
    by (cases "validateLinkCandidates e (linkCandidates link) w")
  from validate_keeps[OF v] have k: "cachedValidatedLinks w0 = cachedValidatedLinks w" by simp
  show ?thesis
  proof (cases r0)
    case (Inl err)
    with assms(1) None v have "w' = w0" by (simp add: processLink_def)
    with k assms(2) show ?thesis by (simp add: cacheOk_def)
  next
    case (Inr inner)
    show ?thesis
    proof (cases "d_enableCaching d")
      case False
      with assms(1) None v Inr have "w' = w0" by (simp add: processLink_def)
      with k assms(2) show ?thesis by (simp add: cacheOk_def)
    next
      case True
      with assms(1) None v Inr
      have w': "cachedValidatedLinks w' = (cachedValidatedLinks w)(link \<mapsto> inner)"
        using k by (auto simp: processLink_def)
      have "inner = Some x \<Longrightarrow> \<exists>c \<in> set (linkCandidates link). resolvePath e c = Resolved x" for x
        using validate_some[of e "linkCandidates link" w x w0] v Inr by simp
      with assms(2) w' show ?thesis by (auto simp: cacheOk_def)
    qed
  qed
qed

lemma processMatches_cacheOk:
  "processMatches e d ms0 w links = (r, w') \<Longrightarrow> cacheOk e w \<Longrightarrow> cacheOk e w'"
proof (induction ms0 arbitrary: w links)
  case Nil
  then show ?case by simp
next
  case (Cons m rest)
  obtain link si where m: "m = (link, si)" by (cases m)
  obtain r1 w1 where p: "processLink e d link
      (convertLinkRangeToBuffer e (si + 1) (si + length link + 1)) w = (r1, w1)"
    by (cases "processLink e d link (convertLinkRangeToBuffer e (si + 1) (si + length link + 1)) w")
  note k = processLink_cacheOk[OF p Cons.prems(2)]
  show ?case
  proof (cases r1)
    case (Inl err)
    with Cons.prems m p k show ?thesis by simp
  next
    case (Inr new)
    with Cons.prems m p have "processMatches e d rest w1 (links @ new) = (r, w')" by simp
    from Cons.IH[OF this k] show ?thesis .
  qed
qed

lemma detect_cacheOk:
  assumes "detect e now line d w = (r, d', w')" and "cacheOk e w"
  shows "cacheOk e w'"
proof -
  obtain d1 w1 where rr: "resetCacheTTL now d w = (d1, w1)"
    by (cases "resetCacheTTL now d w")
  from resetCacheTTL_keeps[OF rr] assms(2) have c1: "cacheOk e w1" by (simp add: cacheOk_def)
  from detect_scan[OF rr, of e line] assms(1)
  have "processMatches e d1 (scan (d_os d) line) w1 [] = (r, w')"
    by (auto split: prod.splits)
  from processMatches_cacheOk[OF this c1] show ?thesis .
qed

lemma cacheOk_step: "cacheOk e (shared s) \<Longrightarrow> cacheOk e (shared (stepSys e s ev))"
proof (cases ev)
  case (Tick now)
  assume "cacheOk e (shared s)"
  with Tick show ?thesis by (simp add: runTimers_def cacheOk_def)
next
  case (Detect j now line)
  assume ok: "cacheOk e (shared s)"
  show ?thesis
  proof (cases "j < length (dets s)")
    case False
    with Detect ok show ?thesis by simp
  next
    case True
    obtain r d' w' where dt: "detect e now line (dets s ! j) (shared s) = (r, d', w')"
      by (cases "detect e now line (dets s ! j) (shared s)") auto
    from stepSys_detect_self[OF True dt] detect_cacheOk[OF dt ok] Detect show ?thesis by simp
  qed
qed

lemma cacheOk_run: "cacheOk e (shared s) \<Longrightarrow> cacheOk e (shared (runSys e s evs))"
  by (induction evs arbitrary: s) (simp_all add: runSys_Nil runSys_Cons cacheOk_step)

lemma cacheOk_start: "cacheOk e (shared (startSystem ds))"
  by (simp add: cacheOk_def startSystem_def freshWorld_def)

text \<open>With caching enabled, a match all of whose candidates the resolver
  does not find is in the cache as \<open>null\<close> after its lookup.\<close>

lemma processLink_caches_null:
  assumes "cacheOk e w" and "d_enableCaching d"
    and "\<forall>c \<in> set (linkCandidates link). resolvePath e c = NotFound"
  shows "\<exists>w'. processLink e d link br w = (Inr [], w') \<and>
              cachedValidatedLinks w' link = Some None"
proof (cases "cachedValidatedLinks w link")
  case None
  let ?w0 = "w\<lparr>resolveCalls := resolveCalls w @ linkCandidates link\<rparr>"
  from assms(3) have "validateLinkCandidates e (linkCandidates link) w = (Inr None, ?w0)"
    by (simp add: validate_all_fail)
  with None assms(2) show ?thesis by (simp add: processLink_def)
next
  case (Some a)
  show ?thesis
  proof (cases a)
    case None
    with Some show ?thesis by (simp add: processLink_def)
  next
    case (Some v)
    with \<open>cachedValidatedLinks w link = Some a\<close> assms(1)
    obtain c where "c \<in> set (linkCandidates link)" "resolvePath e c = Resolved v"
      by (auto simp: cacheOk_def)
    with assms(3) show ?thesis by auto
  qed
qed

lemma processMatches_caches_null:
  assumes "processMatches e d ms0 w links = (Inr ls, w')" and "cacheOk e w"
    and "d_enableCaching d" and "(link, si) \<in> set ms0"
    and "\<forall>c \<in> set (linkCandidates link). resolvePath e c = NotFound"
  shows "cachedValidatedLinks w' link = Some None"
  using assms(1,2,4)
proof (induction ms0 arbitrary: w links)
  case Nil
  then show ?case by simp
next
  case (Cons m rest)
  obtain l i where m: "m = (l, i)" by (cases m)
  obtain r1 w1 where p: "processLink e d l
      (convertLinkRangeToBuffer e (i + 1) (i + length l + 1)) w = (r1, w1)"
    by (cases "processLink e d l (convertLinkRangeToBuffer e (i + 1) (i + length l + 1)) w")
  from Cons.prems(1) m p obtain new where r1: "r1 = Inr new"
    and rest: "processMatches e d rest w1 (links @ new) = (Inr ls, w')"
    by (cases r1) auto
  note ok1 = processLink_cacheOk[OF p Cons.prems(2)]
  show ?case
  proof (cases "l = link")
    case True
    from processLink_caches_null[OF Cons.prems(2) assms(3,5),
           of "convertLinkRangeToBuffer e (i + 1) (i + length l + 1)"]
    obtain wx where "processLink e d link
        (convertLinkRangeToBuffer e (i + 1) (i + length l + 1)) w = (Inr [], wx)"
      and "cachedValidatedLinks wx link = Some None"
      by blast
    with p True have "cachedValidatedLinks w1 link = Some None" by simp
    from processMatches_cache_mono[OF rest this] show ?thesis .
  next
    case False
    with Cons.prems(3) m have "(link, si) \<in> set rest" by auto
    from Cons.IH[OF rest ok1 this] show ?thesis .
  qed
qed

lemma processMatches_all_null:
  assumes "cacheOk e w" and "d_enableCaching d"
    and "\<forall>m \<in> set ms0. \<forall>c \<in> set (linkCandidates (fst m)). resolvePath e c = NotFound"
  shows "\<exists>w'. processMatches e d ms0 w links = (Inr links, w') \<and>
              (\<forall>m \<in> set ms0. cachedValidatedLinks w' (fst m) = Some None)"
  using assms(1,3)
proof (induction ms0 arbitrary: w)
  case Nil
  then show ?case by simp
next
  case (Cons m rest)
  obtain l i where m: "m = (l, i)" by (cases m)
  from Cons.prems(2) m have nf: "\<forall>c \<in> set (linkCandidates l). resolvePath e c = NotFound"
    by simp
  from processLink_caches_null[OF Cons.prems(1) assms(2) nf]
  obtain w1 where p: "processLink e d l
      (convertLinkRangeToBuffer e (i + 1) (i + length l + 1)) w = (Inr [], w1)"
    and c1: "cachedValidatedLinks w1 l = Some None"
    by blast
  note ok1 = processLink_cacheOk[OF p Cons.prems(1)]
  from Cons.prems(2) have
    "\<forall>m \<in> set rest. \<forall>c \<in> set (linkCandidates (fst m)). resolvePath e c = NotFound"
    by simp
  from Cons.IH[OF ok1 this] obtain w' where
    r: "processMatches e d rest w1 links = (Inr links, w')"
    and cr: "\<forall>m \<in> set rest. cachedValidatedLinks w' (fst m) = Some None"
    by blast
  from processMatches_cache_mono[OF r c1] have "cachedValidatedLinks w' l = Some None" .
  with m p r cr show ?case by simp
qed

text \<open>In a process with one detector that has caching enabled, a call of
  \<open>detect\<close> leaves exactly one timer armed, the one it arms.\<close>

lemma single_detect_timers:
  assumes inv: "sysInv s" and one: "length (dets s) = 1" and c: "d_enableCaching (dets s ! 0)"
  shows "timers (shared (stepSys e s (Detect 0 now line))) =
           [(nextHandle (shared s), now + 10000)]"
proof -
  obtain r d' w' where dt: "detect e now line (dets s ! 0) (shared s) = (r, d', w')"
    by (cases "detect e now line (dets s ! 0) (shared s)") auto
  from one have il: "0 < length (dets s)" by simp
  from one have ds: "set (dets s) = {dets s ! 0}"
    by (cases "dets s") auto
  from inv ds have held: "\<forall>t \<in> set (timers (shared s)).
      fst t = d_cacheTilTimeout (dets s ! 0) \<and> 0 < fst t"
    by (auto simp: sysInv_def)
  have gone: "(if d_cacheTilTimeout (dets s ! 0) \<noteq> 0
               then filter (\<lambda>t. fst t \<noteq> d_cacheTilTimeout (dets s ! 0)) (timers (shared s))
               else timers (shared s)) = []"
  proof (cases "d_cacheTilTimeout (dets s ! 0) \<noteq> 0")
    case True
    with held show ?thesis by (auto simp: filter_empty_conv)
  next
    case False
    with held have "timers (shared s) = []" by (cases "timers (shared s)") auto
    with False show ?thesis by simp
  qed
  from detect_timers[OF dt] c gone have "timers w' = [(nextHandle (shared s), now + 10000)]"
    by simp
  with stepSys_detect_self[OF il dt] show ?thesis by simp
qed

lemma stepSys_os: "d_os (dets (stepSys e s ev) ! i) = d_os (dets s ! i)"
proof (cases ev)
  case (Detect j now line)
  show ?thesis
  proof (cases "j = i \<and> i < length (dets s)")
    case True
    obtain r d' w' where dt: "detect e now line (dets s ! i) (shared s) = (r, d', w')"
      by (cases "detect e now line (dets s ! i) (shared s)") auto
    from detect_timers[OF dt] have "d_os d' = d_os (dets s ! i)"
      by (auto split: if_splits)
    with stepSys_detect_self[OF _ dt] True Detect show ?thesis by simp
  next
    case False
    with Detect show ?thesis by (auto split: prod.splits)
  qed
next
  case (Tick now)
  then show ?thesis by simp
qed

lemma runSys_os: "d_os (dets (runSys e s evs) ! i) = d_os (dets s ! i)"
  by (induction evs arbitrary: s) (simp_all add: runSys_Nil runSys_Cons stepSys_os)

text \<open>Within the window no timer runs, so every entry of the cache stays.\<close>

lemma window_step:
  assumes inv: "sysInv s" and one: "length (dets s) = 1" and c: "d_enableCaching (dets s ! 0)"
    and due: "\<forall>tm \<in> set (timers (shared s)). due \<le> snd tm"
    and ev: "withinWindow due [ev]"
  shows "(\<forall>k v. cachedValidatedLinks (shared s) k = Some v \<longrightarrow>
                cachedValidatedLinks (shared (stepSys e s ev)) k = Some v) \<and>
         (\<forall>tm \<in> set (timers (shared (stepSys e s ev))).
            (case ev of Detect j now line \<Rightarrow> now + 10000 | Tick now \<Rightarrow> due) \<le> snd tm)"
proof (cases ev)
  case (Tick now)
  with ev have "now < due" by simp
  with due have "\<forall>tm \<in> set (timers (shared s)). now < snd tm" by force
  from tick_not_due[OF this, of e] Tick due show ?thesis by simp
next
  case (Detect j now line)
  with ev have j: "j = 0" by simp
  obtain r d' w' where dt: "detect e now line (dets s ! 0) (shared s) = (r, d', w')"
    by (cases "detect e now line (dets s ! 0) (shared s)") auto
  from one have il: "0 < length (dets s)" by simp
  from stepSys_detect_self[OF il dt] have sh: "shared (stepSys e s (Detect 0 now line)) = w'"
    by simp
  from single_detect_timers[OF inv one c, of e now line]
  have t: "timers (shared (stepSys e s (Detect 0 now line))) =
             [(nextHandle (shared s), now + 10000)]" .
  have m: "cachedValidatedLinks (shared s) k = Some v \<Longrightarrow>
           cachedValidatedLinks w' k = Some v" for k v
    by (rule detect_cache_mono[OF dt])
  from t have t': "timers w' = [(nextHandle (shared s), now + 10000)]"
    unfolding sh .
  from m t' show ?thesis unfolding Detect j sh by simp
qed

lemma window_run:
  assumes "sysInv s" and "length (dets s) = 1" and "d_enableCaching (dets s ! 0)"
    and "\<forall>tm \<in> set (timers (shared s)). due \<le> snd tm"
    and "withinWindow due evs"
    and "cachedValidatedLinks (shared s) k = Some v"
  shows "cachedValidatedLinks (shared (runSys e s evs)) k = Some v"
  using assms
proof (induction evs arbitrary: s due)
  case Nil
  then show ?case by (simp add: runSys_Nil)
next
  case (Cons ev evs)
  let ?due = "case ev of Detect j now line \<Rightarrow> now + 10000 | Tick now \<Rightarrow> due"
  from Cons.prems(5) have w1: "withinWindow due [ev]" and w2: "withinWindow ?due evs"
    by (cases ev; simp)+
  note st = window_step[OF Cons.prems(1,2,3,4) w1, of e]
  from st Cons.prems(6) have k1: "cachedValidatedLinks (shared (stepSys e s ev)) k = Some v"
    by blast
  from st have d1: "\<forall>tm \<in> set (timers (shared (stepSys e s ev))). ?due \<le> snd tm" by blast
  have l1: "length (dets (stepSys e s ev)) = 1"
    using Cons.prems(2) by (simp only: stepSys_length)
  have c1: "d_enableCaching (dets (stepSys e s ev) ! 0)"
    using Cons.prems(3) by (simp only: stepSys_caching)
  from Cons.IH[OF sysInv_step[OF Cons.prems(1)] l1 c1 d1 w2 k1]
  show ?case by (simp only: runSys_Cons)
qed

lemma withinWindow_append: "withinWindow due (a @ b) \<Longrightarrow> withinWindow due a"
  by (induction due a rule: withinWindow.induct) simp_all

text \<open>The state of a process with one detector, with caching enabled,
  after a pass at time \<open>t1\<close> and the events of a window that follow it.\<close>

lemma single_after_pass:
  assumes c: "d_enableCaching d" and win: "withinWindow (t1 + 10000) quiet"
    and k: "cachedValidatedLinks
              (shared (stepSys e (runSys e (startSystem [d]) evs) (Detect 0 t1 line))) k = Some v"
  shows "cachedValidatedLinks
           (shared (runSys e (startSystem [d]) (evs @ Detect 0 t1 line # quiet))) k = Some v"
proof -
  let ?s0 = "runSys e (startSystem [d]) evs"
  let ?s1 = "stepSys e ?s0 (Detect 0 t1 line)"
  have inv0: "sysInv ?s0" by (rule sysInv_run[OF sysInv_start])
  have one0: "length (dets ?s0) = 1" by (simp add: runSys_length startSystem_def)
  have c0: "d_enableCaching (dets ?s0 ! 0)"
    using c by (simp add: runSys_caching startSystem_def)
  have inv1: "sysInv ?s1" by (rule sysInv_step[OF inv0])
  have one1: "length (dets ?s1) = 1" using one0 by (simp only: stepSys_length)
  have c1: "d_enableCaching (dets ?s1 ! 0)" using c0 by (simp only: stepSys_caching)
  from single_detect_timers[OF inv0 one0 c0, of e t1 line]
  have t1: "\<forall>tm \<in> set (timers (shared ?s1)). t1 + 10000 \<le> snd tm" by simp
  from window_run[OF inv1 one1 c1 t1 win k, of e]
  have "cachedValidatedLinks (shared (runSys e ?s1 quiet)) k = Some v" .
  moreover have "runSys e ?s1 quiet = runSys e (startSystem [d]) (evs @ Detect 0 t1 line # quiet)"
    by (simp only: runSys_Cons[symmetric] runSys_append)
  ultimately show ?thesis by simp
qed

text \<open>
  C2, as stated, fails for the window.  With two detectors, the first arms
  its timer at time 0.  The second runs a pass over the line \<open>q/r\<close> at time
  9000: the resolver finds nothing and \<open>q/r\<close> is cached as \<open>null\<close>.  At time
  10000 the timer of the first detector empties the shared cache, and the pass
  of the second detector over the same line at time 10001, 1001 milliseconds
  after its pass before, calls the resolver for \<open>q/r\<close> again.
\<close>

theorem negative_cache_two_detectors:
  "resolvePath exampleEnv ''q/r'' = NotFound \<and>
   cachedValidatedLinks
       (shared (runSys exampleEnv (startSystem [unixDetector, unixDetector])
                  [Detect 0 0 [], Detect 1 9000 ''q/r''])) ''q/r'' = Some None \<and>
   resolveCalls
       (shared (runSys exampleEnv (startSystem [unixDetector, unixDetector])
                  [Detect 0 0 [], Detect 1 9000 ''q/r''])) = [''q/r''] \<and>
   cachedValidatedLinks
       (shared (runSys exampleEnv (startSystem [unixDetector, unixDetector])
                  [Detect 0 0 [], Detect 1 9000 ''q/r'', Tick 10000])) ''q/r'' = None \<and>
   resolveCalls
       (shared (runSys exampleEnv (startSystem [unixDetector, unixDetector])
                  [Detect 0 0 [], Detect 1 9000 ''q/r'', Tick 10000, Detect 1 10001 ''q/r''])) =
     [''q/r'', ''q/r'']"
proof -
  have s: "scan Linux ''q/r'' = [(''q/r'', 0)]" by code_simp
  have b: "''q/r'' \<noteq> []" "length ''q/r'' \<le> MaxLineLength" by (simp_all add: MaxLineLength_def)
  have u: "detect exampleEnv now ''q/r'' d w =
             (case processMatches exampleEnv (fst (resetCacheTTL now d w)) (scan (d_os d) ''q/r'')
                     (snd (resetCacheTTL now d w)) [] of
                (res, w2) \<Rightarrow> (res, fst (resetCacheTTL now d w), w2))" for now d w
    by (rule detect_unfold[OF _ b]) simp
  have e0: "detect exampleEnv now [] d w =
              (Inr [], fst (resetCacheTTL now d w), snd (resetCacheTTL now d w))" for now d w
    by (simp add: detect_def split: prod.splits)
  show ?thesis
    using s by (simp add: runSys_def startSystem_def u e0) (simp add: ex_defs runTimers_def)
qed

text \<open>
  C2, amended.  A match whose text the cache maps to \<open>null\<close> adds no link and
  leaves the shared state as it is, so the resolver is not called for it; this
  holds at any point of a pass, as a pass never overwrites an entry.  After a
  lookup that found nothing, with caching enabled, the text is cached as
  \<open>null\<close>.  A pass over a line all of whose matches are cached as \<open>null\<close> returns
  no links and makes no call.  A pass is taken as a whole: no timer runs and
  no other pass writes between two of its lookups.

  Over time, in a process with one detector that has caching enabled: let a
  pass at time \<open>t1\<close> over a line return, and let \<open>link\<close> be a match of that line
  for none of whose candidates the resolver finds anything.  Then after every
  sequence of further passes and of time passing in which each event comes
  less than 10 seconds after the pass before it, the cache maps \<open>link\<close> to
  \<open>null\<close>; and in a pass that ends such a sequence, over any line, at time
  \<open>t2\<close>, after lines 76 to 81 and after any matches \<open>pre2\<close> have been
  processed, the match \<open>link\<close> adds no link and leaves the shared state as it
  is, so the resolver is not called for it.  And when the resolver finds
  nothing for any candidate of any match of the line, a pass over the same
  line that ends such a sequence returns no links and makes no call of the
  resolver at all.
\<close>

theorem negative_cache_short_circuit:
  "(cachedValidatedLinks w link = Some None \<longrightarrow> processLink e d link br w = (Inr [], w)) \<and>
   (cachedValidatedLinks w link = Some None \<and> processMatches e d pre w ls = (r, w') \<longrightarrow>
      processLink e d link br w' = (Inr [], w')) \<and>
   (cachedValidatedLinks w link = None \<and> d_enableCaching d \<and>
    (\<forall>c \<in> set (linkCandidates link). resolvePath e c = NotFound) \<longrightarrow>
      (\<exists>w1. processLink e d link br w = (Inr [], w1) \<and>
            cachedValidatedLinks w1 link = Some None \<and>
            processLink e d2 link br2 w1 = (Inr [], w1))) \<and>
   (line0 \<noteq> [] \<and> length line0 \<le> MaxLineLength \<and>
    (\<forall>m \<in> set (scan (d_os d) line0). cachedValidatedLinks w (fst m) = Some None) \<longrightarrow>
      (\<exists>d1 w1. detect e now line0 d w = (Inr [], d1, w1) \<and>
               resolveCalls w1 = resolveCalls w \<and>
               cachedValidatedLinks w1 = cachedValidatedLinks w)) \<and>
   (d_enableCaching d \<and> (link, si) \<in> set (scan (d_os d) line) \<and>
    (\<forall>c \<in> set (linkCandidates link). resolvePath e c = NotFound) \<and>
    fst (detect e t1 line (dets (runSys e (startSystem [d]) evs) ! 0)
           (shared (runSys e (startSystem [d]) evs))) = Inr ls1 \<and>
    withinWindow (t1 + 10000) (quiet @ [Detect 0 t2 line2]) \<and>
    resetCacheTTL t2
      (dets (runSys e (startSystem [d]) (evs @ Detect 0 t1 line # quiet)) ! 0)
      (shared (runSys e (startSystem [d]) (evs @ Detect 0 t1 line # quiet))) = (d3, w3) \<and>
    processMatches e d3 pre2 w3 ls2 = (r2, wm) \<longrightarrow>
      cachedValidatedLinks
        (shared (runSys e (startSystem [d]) (evs @ Detect 0 t1 line # quiet))) link =
        Some None \<and>
      processLink e d3 link br3 wm = (Inr [], wm)) \<and>
   (d_enableCaching d \<and>
    (\<forall>m \<in> set (scan (d_os d) line).
       \<forall>c \<in> set (linkCandidates (fst m)). resolvePath e c = NotFound) \<and>
    withinWindow (t1 + 10000) (quiet @ [Detect 0 t2 line]) \<longrightarrow>
      (\<exists>d4 w4.
         detect e t2 line
           (dets (runSys e (startSystem [d]) (evs @ Detect 0 t1 line # quiet)) ! 0)
           (shared (runSys e (startSystem [d]) (evs @ Detect 0 t1 line # quiet))) =
           (Inr [], d4, w4) \<and>
         resolveCalls w4 =
           resolveCalls (shared (runSys e (startSystem [d]) (evs @ Detect 0 t1 line # quiet)))))"
proof -
  have a: "cachedValidatedLinks w link = Some None \<longrightarrow> processLink e d link br w = (Inr [], w)"
    by (simp add: processLink_not_found)
  have b: "cachedValidatedLinks w link = Some None \<and> processMatches e d pre w ls = (r, w') \<longrightarrow>
      processLink e d link br w' = (Inr [], w')"
    using processMatches_cache_mono processLink_not_found by blast
  have c: "cachedValidatedLinks w link = None \<and> d_enableCaching d \<and>
    (\<forall>c \<in> set (linkCandidates link). resolvePath e c = NotFound) \<longrightarrow>
      (\<exists>w1. processLink e d link br w = (Inr [], w1) \<and>
            cachedValidatedLinks w1 link = Some None \<and>
            processLink e d2 link br2 w1 = (Inr [], w1))"
  proof
    assume h: "cachedValidatedLinks w link = None \<and> d_enableCaching d \<and>
      (\<forall>c \<in> set (linkCandidates link). resolvePath e c = NotFound)"
    let ?w0 = "w\<lparr>resolveCalls := resolveCalls w @ linkCandidates link\<rparr>"
    let ?w1 = "?w0\<lparr>cachedValidatedLinks := (cachedValidatedLinks ?w0)(link \<mapsto> None)\<rparr>"
    from h have v: "validateLinkCandidates e (linkCandidates link) w = (Inr None, ?w0)"
      by (simp add: validate_all_fail)
    with h have p: "processLink e d link br w = (Inr [], ?w1)"
      by (simp add: processLink_def)
    have q: "cachedValidatedLinks ?w1 link = Some None" by simp
    from p q processLink_not_found[OF q]
    show "\<exists>w1. processLink e d link br w = (Inr [], w1) \<and>
            cachedValidatedLinks w1 link = Some None \<and>
            processLink e d2 link br2 w1 = (Inr [], w1)"
      by blast
  qed
  have dd: "line0 \<noteq> [] \<and> length line0 \<le> MaxLineLength \<and>
    (\<forall>m \<in> set (scan (d_os d) line0). cachedValidatedLinks w (fst m) = Some None) \<longrightarrow>
      (\<exists>d1 w1. detect e now line0 d w = (Inr [], d1, w1) \<and>
               resolveCalls w1 = resolveCalls w \<and>
               cachedValidatedLinks w1 = cachedValidatedLinks w)"
  proof
    assume h: "line0 \<noteq> [] \<and> length line0 \<le> MaxLineLength \<and>
      (\<forall>m \<in> set (scan (d_os d) line0). cachedValidatedLinks w (fst m) = Some None)"
    obtain d1 w1 where rr: "resetCacheTTL now d w = (d1, w1)"
      by (cases "resetCacheTTL now d w")
    from resetCacheTTL_keeps[OF rr]
    have k: "cachedValidatedLinks w1 = cachedValidatedLinks w" "resolveCalls w1 = resolveCalls w"
      by simp_all
    with h have "\<forall>m \<in> set (scan (d_os d) line0). cachedValidatedLinks w1 (fst m) = Some None"
      by simp
    then have "processMatches e d1 (scan (d_os d) line0) w1 [] = (Inr [], w1)"
      by (rule processMatches_all_not_found)
    with detect_scan[OF rr, of e line0] have "detect e now line0 d w = (Inr [], d1, w1)"
      by simp
    with k show "\<exists>d1 w1. detect e now line0 d w = (Inr [], d1, w1) \<and>
               resolveCalls w1 = resolveCalls w \<and>
               cachedValidatedLinks w1 = cachedValidatedLinks w"
      by blast
  qed
  let ?s0 = "runSys e (startSystem [d]) evs"
  let ?s1 = "stepSys e ?s0 (Detect 0 t1 line)"
  let ?S = "runSys e (startSystem [d]) (evs @ Detect 0 t1 line # quiet)"
  have il0: "0 < length (dets ?s0)" by (simp add: runSys_length startSystem_def)
  have os0: "d_os (dets ?s0 ! 0) = d_os d" by (simp add: runSys_os startSystem_def)
  have osS: "d_os (dets ?S ! 0) = d_os d" by (simp add: runSys_os startSystem_def)
  have ok0: "cacheOk e (shared ?s0)" by (rule cacheOk_run[OF cacheOk_start])
  obtain d1 w1 where rr: "resetCacheTTL t1 (dets ?s0 ! 0) (shared ?s0) = (d1, w1)"
    by (cases "resetCacheTTL t1 (dets ?s0 ! 0) (shared ?s0)")
  from resetCacheTTL_keeps[OF rr]
  have k1: "cachedValidatedLinks w1 = cachedValidatedLinks (shared ?s0)"
    and ce: "d_enableCaching d1 = d_enableCaching (dets ?s0 ! 0)"
    by simp_all
  from ok0 k1 have ok1: "cacheOk e w1" by (simp add: cacheOk_def)
  have ce0: "d_enableCaching (dets ?s0 ! 0) = d_enableCaching d"
    by (simp add: runSys_caching startSystem_def)
  have f: "d_enableCaching d \<and> (link, si) \<in> set (scan (d_os d) line) \<and>
    (\<forall>c \<in> set (linkCandidates link). resolvePath e c = NotFound) \<and>
    fst (detect e t1 line (dets ?s0 ! 0) (shared ?s0)) = Inr ls1 \<and>
    withinWindow (t1 + 10000) (quiet @ [Detect 0 t2 line2]) \<and>
    resetCacheTTL t2 (dets ?S ! 0) (shared ?S) = (d3, w3) \<and>
    processMatches e d3 pre2 w3 ls2 = (r2, wm) \<longrightarrow>
      cachedValidatedLinks (shared ?S) link = Some None \<and>
      processLink e d3 link br3 wm = (Inr [], wm)"
  proof
    assume h: "d_enableCaching d \<and> (link, si) \<in> set (scan (d_os d) line) \<and>
      (\<forall>c \<in> set (linkCandidates link). resolvePath e c = NotFound) \<and>
      fst (detect e t1 line (dets ?s0 ! 0) (shared ?s0)) = Inr ls1 \<and>
      withinWindow (t1 + 10000) (quiet @ [Detect 0 t2 line2]) \<and>
      resetCacheTTL t2 (dets ?S ! 0) (shared ?S) = (d3, w3) \<and>
      processMatches e d3 pre2 w3 ls2 = (r2, wm)"
    then obtain d' w' where dt: "detect e t1 line (dets ?s0 ! 0) (shared ?s0) = (Inr ls1, d', w')"
      by (cases "detect e t1 line (dets ?s0 ! 0) (shared ?s0)") auto
    from detect_scan[OF rr, of e line] dt
    have pm: "processMatches e d1 (scan (d_os (dets ?s0 ! 0)) line) w1 [] = (Inr ls1, w')"
      by (auto split: prod.splits)
    from h ce ce0 have c1: "d_enableCaching d1" by simp
    from h os0 have mem: "(link, si) \<in> set (scan (d_os (dets ?s0 ! 0)) line)" by simp
    from h have nf: "\<forall>c \<in> set (linkCandidates link). resolvePath e c = NotFound" by simp
    from processMatches_caches_null[OF pm ok1 c1 mem nf]
    have kw: "cachedValidatedLinks w' link = Some None" .
    have sh: "shared ?s1 = w'" using stepSys_detect_self[OF il0 dt] by blast
    have k: "cachedValidatedLinks (shared ?s1) link = Some None"
      unfolding sh by (rule kw)
    from h have c: "d_enableCaching d" by simp
    from h have win: "withinWindow (t1 + 10000) quiet"
      using withinWindow_append by blast
    from single_after_pass[OF c win k]
    have kS: "cachedValidatedLinks (shared ?S) link = Some None" .
    from h have rr3: "resetCacheTTL t2 (dets ?S ! 0) (shared ?S) = (d3, w3)"
      and pm2: "processMatches e d3 pre2 w3 ls2 = (r2, wm)"
      by simp_all
    from resetCacheTTL_keeps[OF rr3] kS have "cachedValidatedLinks w3 link = Some None"
      by simp
    from processMatches_cache_mono[OF pm2 this]
    have "cachedValidatedLinks wm link = Some None" .
    from kS processLink_not_found[OF this]
    show "cachedValidatedLinks (shared ?S) link = Some None \<and>
          processLink e d3 link br3 wm = (Inr [], wm)"
      by simp
  qed
  have g: "d_enableCaching d \<and>
    (\<forall>m \<in> set (scan (d_os d) line).
       \<forall>c \<in> set (linkCandidates (fst m)). resolvePath e c = NotFound) \<and>
    withinWindow (t1 + 10000) (quiet @ [Detect 0 t2 line]) \<longrightarrow>
      (\<exists>d4 w4. detect e t2 line (dets ?S ! 0) (shared ?S) = (Inr [], d4, w4) \<and>
               resolveCalls w4 = resolveCalls (shared ?S))"
  proof
    assume h: "d_enableCaching d \<and>
      (\<forall>m \<in> set (scan (d_os d) line).
         \<forall>c \<in> set (linkCandidates (fst m)). resolvePath e c = NotFound) \<and>
      withinWindow (t1 + 10000) (quiet @ [Detect 0 t2 line])"
    from h have c: "d_enableCaching d" by simp
    from h have win: "withinWindow (t1 + 10000) quiet"
      using withinWindow_append by blast
    from h ce ce0 have c1: "d_enableCaching d1" by simp
    from h os0 have nf: "\<forall>m \<in> set (scan (d_os (dets ?s0 ! 0)) line).
        \<forall>c \<in> set (linkCandidates (fst m)). resolvePath e c = NotFound"
      by simp
    from processMatches_all_null[OF ok1 c1 nf, of "[]"] obtain w' where
      pm: "processMatches e d1 (scan (d_os (dets ?s0 ! 0)) line) w1 [] = (Inr [], w')"
      and all: "\<forall>m \<in> set (scan (d_os (dets ?s0 ! 0)) line).
                  cachedValidatedLinks w' (fst m) = Some None"
      by blast
    from detect_scan[OF rr, of e line] pm
    have dt: "detect e t1 line (dets ?s0 ! 0) (shared ?s0) = (Inr [], d1, w')" by simp
    have sh: "shared ?s1 = w'" using stepSys_detect_self[OF il0 dt] by blast
    have cached: "cachedValidatedLinks (shared ?S) (fst m) = Some None"
      if m: "m \<in> set (scan (d_os d) line)" for m
    proof -
      from all m os0 have "cachedValidatedLinks w' (fst m) = Some None" by simp
      then have k: "cachedValidatedLinks (shared ?s1) (fst m) = Some None"
        unfolding sh .
      from single_after_pass[OF c win k] show ?thesis .
    qed
    obtain d4 w4 where rr2: "resetCacheTTL t2 (dets ?S ! 0) (shared ?S) = (d4, w4)"
      by (cases "resetCacheTTL t2 (dets ?S ! 0) (shared ?S)")
    from resetCacheTTL_keeps[OF rr2]
    have k3: "cachedValidatedLinks w4 = cachedValidatedLinks (shared ?S)"
             "resolveCalls w4 = resolveCalls (shared ?S)"
      by simp_all
    from cached k3 osS
    have "\<forall>m \<in> set (scan (d_os (dets ?S ! 0)) line). cachedValidatedLinks w4 (fst m) = Some None"
      by simp
    then have "processMatches e d4 (scan (d_os (dets ?S ! 0)) line) w4 [] = (Inr [], w4)"
      by (rule processMatches_all_not_found)
    with detect_scan[OF rr2, of e line]
    have "detect e t2 line (dets ?S ! 0) (shared ?S) = (Inr [], d4, w4)" by simp
    with k3 show "\<exists>d4 w4. detect e t2 line (dets ?S ! 0) (shared ?S) = (Inr [], d4, w4) \<and>
               resolveCalls w4 = resolveCalls (shared ?S)"
      by blast
  qed
  show ?thesis
    by (intro conjI) (rule a, rule b, rule c, rule dd, rule f, rule g)
qed

theorem negative_cache_short_circuit_witness:
  "cachedValidatedLinks notFoundWorld ''q/r'' = Some None \<and>
   processLink exampleEnv unixDetector ''q/r'' ((1, 1), (4, 1)) notFoundWorld = (Inr [], notFoundWorld) \<and>
   cachedValidatedLinks freshWorld ''q/r'' = None \<and> d_enableCaching unixDetector \<and>
   linkCandidates ''q/r'' = [''q/r''] \<and> resolvePath exampleEnv ''q/r'' = NotFound \<and>
   (\<exists>w1. processLink exampleEnv unixDetector ''q/r'' ((1, 1), (4, 1)) freshWorld = (Inr [], w1) \<and>
         cachedValidatedLinks w1 ''q/r'' = Some None \<and>
         processLink exampleEnv unixDetector ''q/r'' ((1, 1), (4, 1)) w1 = (Inr [], w1)) \<and>
   scan (d_os unixDetector) ''q/r'' = [(''q/r'', 0)] \<and>
   (\<exists>d1 w1. detect exampleEnv 0 ''q/r'' unixDetector notFoundWorld = (Inr [], d1, w1) \<and>
            resolveCalls w1 = resolveCalls notFoundWorld \<and>
            cachedValidatedLinks w1 = cachedValidatedLinks notFoundWorld) \<and>
   fst (detect exampleEnv 0 ''q/r''
          (dets (runSys exampleEnv (startSystem [unixDetector]) []) ! 0)
          (shared (runSys exampleEnv (startSystem [unixDetector]) []))) = Inr [] \<and>
   withinWindow (0 + 10000)
     ([Tick 5000, Detect 0 6000 ''a/b'', Tick 15999] @ [Detect 0 15999 ''q/r'']) \<and>
   cachedValidatedLinks
     (shared (runSys exampleEnv (startSystem [unixDetector])
                ([] @ Detect 0 0 ''q/r'' # [Tick 5000, Detect 0 6000 ''a/b'', Tick 15999])))
     ''q/r'' = Some None \<and>
   (\<exists>d3 w3.
      resetCacheTTL 15999
        (dets (runSys exampleEnv (startSystem [unixDetector])
                ([] @ Detect 0 0 ''q/r'' # [Tick 5000, Detect 0 6000 ''a/b'', Tick 15999])) ! 0)
        (shared (runSys exampleEnv (startSystem [unixDetector])
                ([] @ Detect 0 0 ''q/r'' # [Tick 5000, Detect 0 6000 ''a/b'', Tick 15999]))) = (d3, w3) \<and>
      processMatches exampleEnv d3 [] w3 [] = (Inr [], w3) \<and>
      processLink exampleEnv d3 ''q/r'' ((1, 1), (4, 1)) w3 = (Inr [], w3)) \<and>
   (\<exists>d4 w4.
      detect exampleEnv 15999 ''q/r''
        (dets (runSys exampleEnv (startSystem [unixDetector])
                ([] @ Detect 0 0 ''q/r'' # [Tick 5000, Detect 0 6000 ''a/b'', Tick 15999])) ! 0)
        (shared (runSys exampleEnv (startSystem [unixDetector])
                ([] @ Detect 0 0 ''q/r'' # [Tick 5000, Detect 0 6000 ''a/b'', Tick 15999]))) =
        (Inr [], d4, w4) \<and>
      resolveCalls w4 =
        resolveCalls
          (shared (runSys exampleEnv (startSystem [unixDetector])
                ([] @ Detect 0 0 ''q/r'' # [Tick 5000, Detect 0 6000 ''a/b'', Tick 15999]))))"
proof -
  let ?S = "runSys exampleEnv (startSystem [unixDetector])
              ([] @ Detect 0 0 ''q/r'' # [Tick 5000, Detect 0 6000 ''a/b'', Tick 15999])"
  have h1: "cachedValidatedLinks notFoundWorld ''q/r'' = Some None"
    by (simp add: notFoundWorld_def freshWorld_def)
  have h2: "cachedValidatedLinks freshWorld ''q/r'' = None \<and> d_enableCaching unixDetector \<and>
      (\<forall>c \<in> set (linkCandidates ''q/r''). resolvePath exampleEnv c = NotFound)"
    by (simp add: freshWorld_def unixDetector_def linkCandidates_def matchesParents_def
                  startsWith_def exampleEnv_def exampleResolve_def)
  have s: "scan Linux ''q/r'' = [(''q/r'', 0)]" by code_simp
  have h3: "\<forall>m \<in> set (scan (d_os unixDetector) ''q/r'').
              cachedValidatedLinks notFoundWorld (fst m) = Some None"
    using h1 s by (simp add: unixDetector_def)
  have h4: "''q/r'' \<noteq> [] \<and> length ''q/r'' \<le> MaxLineLength"
    by (simp add: MaxLineLength_def)
  have h5: "linkCandidates ''q/r'' = [''q/r''] \<and> resolvePath exampleEnv ''q/r'' = NotFound \<and>
            scan (d_os unixDetector) ''q/r'' = [(''q/r'', 0)]"
    using s by (simp add: linkCandidates_def matchesParents_def startsWith_def exampleEnv_def
                          exampleResolve_def unixDetector_def)
  have h6: "(''q/r'', 0) \<in> set (scan (d_os unixDetector) ''q/r'')"
    using h5 by simp
  have h7: "\<forall>m \<in> set (scan (d_os unixDetector) ''q/r'').
              \<forall>c \<in> set (linkCandidates (fst m)). resolvePath exampleEnv c = NotFound"
    using h5 by simp
  have u: "detect exampleEnv now ''q/r'' d w =
             (case processMatches exampleEnv (fst (resetCacheTTL now d w)) (scan (d_os d) ''q/r'')
                     (snd (resetCacheTTL now d w)) [] of
                (res, w2) \<Rightarrow> (res, fst (resetCacheTTL now d w), w2))" for now d w
    by (rule detect_scan) simp
  have h8: "fst (detect exampleEnv 0 ''q/r''
          (dets (runSys exampleEnv (startSystem [unixDetector]) []) ! 0)
          (shared (runSys exampleEnv (startSystem [unixDetector]) []))) = Inr []"
    using s by (simp add: runSys_def startSystem_def u) (simp add: ex_defs)
  have h9: "withinWindow (0 + 10000)
              ([Tick 5000, Detect 0 6000 ''a/b'', Tick 15999] @ [Detect 0 15999 ''q/r''])"
    by simp
  obtain d3 w3 where rr: "resetCacheTTL 15999 (dets ?S ! 0) (shared ?S) = (d3, w3)"
    by (cases "resetCacheTTL 15999 (dets ?S ! 0) (shared ?S)")
  have pn: "processMatches exampleEnv d3 [] w3 [] = (Inr [], w3)" by simp
  note old1 = negative_cache_short_circuit[where w = notFoundWorld and link = "''q/r''"
       and e = exampleEnv and d = unixDetector and br = "((1, 1), (4, 1))" and pre = "[]"
       and ls = "[]" and r = "Inr []" and w' = notFoundWorld and line0 = "''q/r''" and now = 0]
  note new1 = negative_cache_short_circuit[where w = freshWorld and link = "''q/r''"
       and e = exampleEnv and d = unixDetector and br = "((1, 1), (4, 1))"
       and ?d2.0 = unixDetector and ?br2.0 = "((1, 1), (4, 1))" and si = 0 and evs = "[]"
       and ?t1.0 = 0 and line = "''q/r''"
       and quiet = "[Tick 5000, Detect 0 6000 ''a/b'', Tick 15999]" and ?ls1.0 = "[]"
       and ?t2.0 = 15999 and ?line2.0 = "''q/r''" and ?d3.0 = d3 and ?w3.0 = w3
       and ?pre2.0 = "[]" and ?ls2.0 = "[]" and ?r2.0 = "Inr []" and wm = w3
       and ?br3.0 = "((1, 1), (4, 1))"]
  have p1: "processLink exampleEnv unixDetector ''q/r'' ((1, 1), (4, 1)) notFoundWorld =
              (Inr [], notFoundWorld)"
    using old1 h1 by blast
  have p2: "\<exists>d1 w1. detect exampleEnv 0 ''q/r'' unixDetector notFoundWorld = (Inr [], d1, w1) \<and>
            resolveCalls w1 = resolveCalls notFoundWorld \<and>
            cachedValidatedLinks w1 = cachedValidatedLinks notFoundWorld"
    using old1 h3 h4 by blast
  have p3: "\<exists>w1. processLink exampleEnv unixDetector ''q/r'' ((1, 1), (4, 1)) freshWorld = (Inr [], w1) \<and>
         cachedValidatedLinks w1 ''q/r'' = Some None \<and>
         processLink exampleEnv unixDetector ''q/r'' ((1, 1), (4, 1)) w1 = (Inr [], w1)"
    using new1 h2 by blast
  have p4: "cachedValidatedLinks (shared ?S) ''q/r'' = Some None \<and>
            processLink exampleEnv d3 ''q/r'' ((1, 1), (4, 1)) w3 = (Inr [], w3)"
    using new1 h2 h6 h8 h9 rr pn by blast
  with rr pn have p5: "\<exists>d3 w3.
      resetCacheTTL 15999 (dets ?S ! 0) (shared ?S) = (d3, w3) \<and>
      processMatches exampleEnv d3 [] w3 [] = (Inr [], w3) \<and>
      processLink exampleEnv d3 ''q/r'' ((1, 1), (4, 1)) w3 = (Inr [], w3)"
    by blast
  have p6: "\<exists>d4 w4.
      detect exampleEnv 15999 ''q/r'' (dets ?S ! 0) (shared ?S) = (Inr [], d4, w4) \<and>
      resolveCalls w4 = resolveCalls (shared ?S)"
    using new1 h2 h7 h9 by blast
  from p4 have p4a: "cachedValidatedLinks (shared ?S) ''q/r'' = Some None" by blast
  from h1 h2 h5 h8 h9 p1 p2 p3 p4a p5 p6 show ?thesis by (simp only: simp_thms)
qed

section \<open>What the POSIX path clause matches\<close>

lemma stepChar_consumed:
  "st' \<in> set (stepChar p st) \<Longrightarrow> \<exists>x. fst st = x # fst st' \<and> p x"
  by (cases "(p, st)" rule: stepChar.cases) (auto split: if_splits)

lemma ms_consumed:
  "st' \<in> set (ms n r st) \<Longrightarrow>
     \<exists>pre. fst st = pre @ fst st' \<and> (\<forall>x \<in> set pre. accepts r x)"
proof (induction n r st arbitrary: st' rule: ms.induct)
  case (1 n c st)
  then obtain x where "fst st = x # fst st'" "x = c"
    using stepChar_consumed[of st' "\<lambda>x. x = c" st] by auto
  then show ?case by (intro exI[of _ "[x]"]) simp
next
  case (2 n items st)
  then obtain x where "fst st = x # fst st'" "inClass items x"
    using stepChar_consumed[of st' "inClass items" st] by auto
  then show ?case by (intro exI[of _ "[x]"]) simp
next
  case (3 n items st)
  then obtain x where "fst st = x # fst st'" "\<not> inClass items x"
    using stepChar_consumed[of st' "\<lambda>x. \<not> inClass items x" st] by auto
  then show ?case by (intro exI[of _ "[x]"]) simp
next
  case (4 n a b st)
  from "4.prems" obtain mid where m: "mid \<in> set (ms n a st)" "st' \<in> set (ms (n + ngroups a) b mid)"
    by auto
  from "4.IH"(1)[OF m(1)] obtain p1 where p1: "fst st = p1 @ fst mid" "\<forall>x \<in> set p1. accepts a x"
    by auto
  from "4.IH"(2)[OF m(1) m(2)] obtain p2 where p2: "fst mid = p2 @ fst st'" "\<forall>x \<in> set p2. accepts b x"
    by auto
  from p1 p2 show ?case by (intro exI[of _ "p1 @ p2"]) auto
next
  case (5 n a b st)
  from "5.prems" have "st' \<in> set (ms n a st) \<or> st' \<in> set (ms (n + ngroups a) b st)" by auto
  then show ?case
  proof
    assume "st' \<in> set (ms n a st)"
    from "5.IH"(1)[OF this] show ?thesis by auto
  next
    assume "st' \<in> set (ms (n + ngroups a) b st)"
    from "5.IH"(2)[OF this] show ?thesis by auto
  qed
next
  case (6 n r s cp)
  from "6.prems" obtain s' cp' where i: "(s', cp') \<in> set (ms (Suc n) r (s, cp))" "fst st' = s'"
    by auto
  from "6.IH"[OF i(1)] i(2) show ?case by auto
next
  case (7 n r s cp)
  from "7.prems" have "st' \<in> set (ms n r (s, clearCaps n (ngroups r) cp)) \<or> st' = (s, cp)"
    by auto
  then show ?case
  proof
    assume "st' \<in> set (ms n r (s, clearCaps n (ngroups r) cp))"
    from "7.IH"[OF this] show ?thesis by auto
  next
    assume "st' = (s, cp)"
    then show ?thesis by (intro exI[of _ "[]"]) simp
  qed
next
  case (8 n r s cp)
  from "8.prems" have
    "(\<exists>mid \<in> set (ms n r (s, clearCaps n (ngroups r) cp)).
        length (fst mid) < length s \<and> st' \<in> set (ms n (Star r) mid)) \<or> st' = (s, cp)"
    by (auto split: if_splits)
  then show ?case
  proof
    assume "\<exists>mid \<in> set (ms n r (s, clearCaps n (ngroups r) cp)).
        length (fst mid) < length s \<and> st' \<in> set (ms n (Star r) mid)"
    then obtain mid where m: "mid \<in> set (ms n r (s, clearCaps n (ngroups r) cp))"
      "length (fst mid) < length s" "st' \<in> set (ms n (Star r) mid)" by auto
    from "8.IH"(1)[OF m(1)] obtain p1 where
      p1: "s = p1 @ fst mid" "\<forall>x \<in> set p1. accepts r x" by auto
    from "8.IH"(2)[OF m(1) m(2) m(3)] obtain p2 where
      p2: "fst mid = p2 @ fst st'" "\<forall>x \<in> set p2. accepts r x" by auto
    from p1 p2 show ?thesis by (intro exI[of _ "p1 @ p2"]) auto
  next
    assume "st' = (s, cp)"
    then show ?thesis by (intro exI[of _ "[]"]) simp
  qed
next
  case (9 n r s cp)
  from "9.prems" obtain mid where m: "mid \<in> set (ms n r (s, clearCaps n (ngroups r) cp))"
    "st' \<in> set (ms n (Star r) mid)" by auto
  from "9.IH"(1)[OF m(1)] obtain p1 where
    p1: "s = p1 @ fst mid" "\<forall>x \<in> set p1. accepts r x" by auto
  from "9.IH"(2)[OF m(1) m(2)] obtain p2 where
    p2: "fst mid = p2 @ fst st'" "\<forall>x \<in> set p2. accepts r x" by auto
  from p1 p2 show ?case by (intro exI[of _ "p1 @ p2"]) auto
qed

declare ms.simps [simp del]

lemma accepts_unix: "accepts unixLocalLinkClause x \<Longrightarrow> isPathChar x"
  by (auto simp: unixLocalLinkClause_def pathPrefix_def pathSeparatorClause_def
                 excludedPathCharactersClause_def isPathChar_def excludedPathCharacters_def
                 inClass_def isSpace_def)

lemma stepChar_no_slash:
  "CHR ''/'' \<notin> set s \<Longrightarrow> stepChar (\<lambda>x. x = CHR ''/'') (s, cp) = []"
  by (cases s) auto

lemma segments_no_slash:
  "CHR ''/'' \<notin> set s \<Longrightarrow> ms k (Plus (Group (Seq pathSeparatorClause X))) (s, cp) = []"
  by (simp add: ms.simps pathSeparatorClause_def stepChar_no_slash)

lemma unix_no_slash:
  assumes "CHR ''/'' \<notin> set s"
  shows "ms n unixLocalLinkClause (s, cp) = []"
proof -
  let ?O = "Opt (Group (Alt pathPrefix (Plus (Group excludedPathCharactersClause))))"
  let ?P = "Plus (Group (Seq pathSeparatorClause (Plus (Group excludedPathCharactersClause))))"
  have "ms k ?P mid = []" if "mid \<in> set (ms (Suc n) ?O (s, cp))" for k mid
  proof -
    from ms_consumed[OF that] obtain pre where "s = pre @ fst mid" by auto
    with assms have "CHR ''/'' \<notin> set (fst mid)" by auto
    from segments_no_slash[OF this, of k _ "snd mid"] show ?thesis by simp
  qed
  then have "concat (map (ms (Suc n + ngroups ?O) ?P) (ms (Suc n) ?O (s, cp))) = []"
    by simp
  then show ?thesis
    by (simp add: unixLocalLinkClause_def ms.simps(4,6))
qed

lemma full_no_slash:
  "CHR ''/'' \<notin> set s \<Longrightarrow> ms n (localLinkRegex Linux) (s, cp) = []"
  by (simp add: localLinkRegex_def ms.simps(4) unix_no_slash)

lemma searchFrom_no_slash:
  "CHR ''/'' \<notin> set s \<Longrightarrow> searchFrom (localLinkRegex Linux) s i = None"
  by (induction s arbitrary: i) (simp_all add: full_no_slash)

lemma rexExec_no_slash:
  "CHR ''/'' \<notin> set s \<Longrightarrow> rexExec (localLinkRegex Linux) s lastIndex = None"
  by (auto simp: rexExec_def intro!: searchFrom_no_slash dest: in_set_dropD)

lemma scan_no_slash: "CHR ''/'' \<notin> set s \<Longrightarrow> scan Linux s = []"
  by (simp add: scan_def scanFrom.simps[of Linux s 0 "- 1"] rexExec_no_slash)

lemma body_step:
  "ms n (Group excludedPathCharactersClause) (x # xs, cp) =
     (if isPathChar x then [(xs, cp(n \<mapsto> [x]))] else [])"
  by (simp add: ms.simps excludedPathCharactersClause_def isPathChar_def)

lemma body_nil: "ms n (Group excludedPathCharactersClause) ([], cp) = []"
  by (simp add: ms.simps excludedPathCharactersClause_def)

lemma star_body_hd:
  "\<forall>x \<in> set s. isPathChar x \<Longrightarrow>
     ms n (Star (Group excludedPathCharactersClause)) (s, cp) \<noteq> [] \<and>
     fst (hd (ms n (Star (Group excludedPathCharactersClause)) (s, cp))) = []"
proof (induction s arbitrary: cp)
  case Nil
  show ?case by (simp add: ms.simps(8) body_nil)
next
  case (Cons x xs)
  let ?c = "(clearCaps n (ngroups (Group excludedPathCharactersClause)) cp)(n \<mapsto> [x])"
  from Cons.prems have "isPathChar x" "\<forall>y \<in> set xs. isPathChar y" by simp_all
  then have u: "ms n (Star (Group excludedPathCharactersClause)) (x # xs, cp) =
          ms n (Star (Group excludedPathCharactersClause)) (xs, ?c) @ [(x # xs, cp)]"
    by (subst ms.simps(8)) (simp add: body_step)
  have ih: "ms n (Star (Group excludedPathCharactersClause)) (xs, c) \<noteq> []"
    "fst (hd (ms n (Star (Group excludedPathCharactersClause)) (xs, c))) = []" for c
    using Cons.IH[OF \<open>\<forall>y \<in> set xs. isPathChar y\<close>, of c] by simp_all
  show ?case
    unfolding u by (simp only: hd_append2[OF ih(1)] ih append_is_Nil_conv simp_thms not_False_eq_True)
qed

lemma plus_body_nil: "ms n (Plus (Group excludedPathCharactersClause)) ([], cp) = []"
  by (simp add: ms.simps(9) body_nil)

lemma plus_body_hd:
  assumes "\<forall>x \<in> set s. isPathChar x" and "s \<noteq> []"
  shows "ms n (Plus (Group excludedPathCharactersClause)) (s, cp) \<noteq> [] \<and>
         fst (hd (ms n (Plus (Group excludedPathCharactersClause)) (s, cp))) = []"
proof -
  from assms(2) obtain x xs where s: "s = x # xs" by (cases s) auto
  let ?c = "(clearCaps n (ngroups (Group excludedPathCharactersClause)) cp)(n \<mapsto> [x])"
  from assms(1) s have "isPathChar x" "\<forall>y \<in> set xs. isPathChar y" by simp_all
  then have u: "ms n (Plus (Group excludedPathCharactersClause)) (x # xs, cp) =
          ms n (Star (Group excludedPathCharactersClause)) (xs, ?c)"
    by (subst ms.simps(9)) (simp add: body_step)
  show ?thesis
    unfolding s u by (rule star_body_hd[OF \<open>\<forall>y \<in> set xs. isPathChar y\<close>])
qed

lemma group_hd:
  assumes "ms (Suc n) r (s, cp) = [] \<or> fst (hd (ms (Suc n) r (s, cp))) = []"
  shows "ms n (Group r) (s, cp) = [] \<or> fst (hd (ms n (Group r) (s, cp))) = []"
proof (cases "ms (Suc n) r (s, cp)")
  case Nil
  then show ?thesis by (simp add: ms.simps(6))
next
  case (Cons st rest)
  obtain a b where st: "st = (a, b)" by (cases st)
  with Cons assms have "a = []" by simp
  with Cons st show ?thesis by (simp add: ms.simps(6))
qed

lemma concat_hd:
  "\<forall>l \<in> set ls. l = [] \<or> Q (hd l) \<Longrightarrow> concat ls = [] \<or> Q (hd (concat ls))"
  by (induction ls) (auto simp: hd_append)

lemma segment_hd:
  assumes "\<forall>x \<in> set s. isPathChar x"
  shows "ms n (Group (Seq pathSeparatorClause (Plus (Group excludedPathCharactersClause)))) (s, cp) = [] \<or>
         fst (hd (ms n (Group (Seq pathSeparatorClause (Plus (Group excludedPathCharactersClause)))) (s, cp))) = []"
proof (rule group_hd)
  let ?R = "Seq pathSeparatorClause (Plus (Group excludedPathCharactersClause))"
  show "ms (Suc n) ?R (s, cp) = [] \<or> fst (hd (ms (Suc n) ?R (s, cp))) = []"
  proof (cases s)
    case Nil
    then show ?thesis by (simp add: ms.simps(1,4) pathSeparatorClause_def)
  next
    case (Cons x xs)
    show ?thesis
    proof (cases "x = CHR ''/'' \<and> xs \<noteq> []")
      case True
      with assms Cons have "\<forall>y \<in> set xs. isPathChar y" "xs \<noteq> []" by simp_all
      from plus_body_hd[OF this, of "Suc n" cp] True Cons show ?thesis
        by (simp add: ms.simps(1,4) pathSeparatorClause_def)
    next
      case False
      with Cons show ?thesis
        by (auto simp: ms.simps(1,4) pathSeparatorClause_def plus_body_nil)
    qed
  qed
qed

lemma star_segment_nil:
  "ms n (Star (Group (Seq pathSeparatorClause X))) ([], cp) = [([], cp)]"
  by (simp add: ms.simps pathSeparatorClause_def)

lemma segments_hd:
  assumes "\<forall>x \<in> set s. isPathChar x"
  shows "ms n (Plus (Group (Seq pathSeparatorClause (Plus (Group excludedPathCharactersClause))))) (s, cp) = [] \<or>
         fst (hd (ms n (Plus (Group (Seq pathSeparatorClause (Plus (Group excludedPathCharactersClause))))) (s, cp))) = []"
proof -
  let ?G = "Group (Seq pathSeparatorClause (Plus (Group excludedPathCharactersClause)))"
  let ?c = "clearCaps n (ngroups ?G) cp"
  show ?thesis
  proof (cases "ms n ?G (s, ?c)")
    case Nil
    then show ?thesis by (simp add: ms.simps(9))
  next
    case (Cons st rest)
    with segment_hd[OF assms, of n ?c] have "fst st = []" by simp
    then have "st = ([], snd st)" by (cases st) simp
    then have "ms n (Star ?G) st = [([], snd st)]"
      using star_segment_nil[of n _ "snd st"] by metis
    with Cons show ?thesis by (simp add: ms.simps(9))
  qed
qed

lemma unix_hd:
  assumes "\<forall>x \<in> set s. isPathChar x"
  shows "ms n unixLocalLinkClause (s, cp) = [] \<or> fst (hd (ms n unixLocalLinkClause (s, cp))) = []"
  unfolding unixLocalLinkClause_def
proof (rule group_hd)
  let ?O = "Opt (Group (Alt pathPrefix (Plus (Group excludedPathCharactersClause))))"
  let ?P = "Plus (Group (Seq pathSeparatorClause (Plus (Group excludedPathCharactersClause))))"
  have "\<forall>l \<in> set (map (ms (Suc n + ngroups ?O) ?P) (ms (Suc n) ?O (s, cp))).
          l = [] \<or> fst (hd l) = []"
  proof
    fix l assume "l \<in> set (map (ms (Suc n + ngroups ?O) ?P) (ms (Suc n) ?O (s, cp)))"
    then obtain mid where m: "mid \<in> set (ms (Suc n) ?O (s, cp))"
      "l = ms (Suc n + ngroups ?O) ?P mid" by auto
    from ms_consumed[OF m(1)] obtain pre where "s = pre @ fst mid" by auto
    with assms have "\<forall>x \<in> set (fst mid). isPathChar x" by auto
    from segments_hd[OF this, of "Suc n + ngroups ?O" "snd mid"] m(2)
    show "l = [] \<or> fst (hd l) = []" by simp
  qed
  from concat_hd[OF this]
  show "ms (Suc n) (Seq ?O ?P) (s, cp) = [] \<or> fst (hd (ms (Suc n) (Seq ?O ?P) (s, cp))) = []"
    by (simp add: ms.simps(4))
qed

lemma suffix_at_end: "ms k (Group lineAndColumnClause) ([], cp) \<noteq> []"
  by (simp add: ms.simps lineAndColumnClause_def lineAndColumnAlternatives_def lits_def
                notSpace_def digit_def quoteChar_def)

lemma fullMatch_path_chars:
  assumes "fullMatch unixLocalLinkClause w"
  shows "\<forall>x \<in> set w. isPathChar x"
proof -
  from assms obtain st where st: "st \<in> set (ms 1 unixLocalLinkClause (w, \<lambda>_. None))" "fst st = []"
    by (auto simp: fullMatch_def list_ex_iff)
  from ms_consumed[OF st(1)] st(2) have "\<forall>x \<in> set w. accepts unixLocalLinkClause x" by auto
  then show ?thesis by (blast intro: accepts_unix)
qed

lemma full_hd:
  assumes "fullMatch unixLocalLinkClause w"
  shows "\<exists>cp rest. ms 1 (localLinkRegex Linux) (w, \<lambda>_. None) = ([], cp) # rest"
proof -
  let ?U = "ms 1 unixLocalLinkClause (w, \<lambda>_. None)"
  let ?k = "1 + ngroups unixLocalLinkClause"
  from assms have ne: "?U \<noteq> []" by (auto simp: fullMatch_def list_ex_iff)
  then obtain st rest where u: "?U = st # rest" by (cases ?U) auto
  from unix_hd[OF fullMatch_path_chars[OF assms], of 1 "\<lambda>_. None"] u have "fst st = []" by simp
  then have st: "st = ([], snd st)" by (cases st) simp
  from suffix_at_end[of ?k "snd st"] obtain st2 rest2 where
    g: "ms ?k (Group lineAndColumnClause) ([], snd st) = st2 # rest2"
    by (cases "ms ?k (Group lineAndColumnClause) ([], snd st)") auto
  then have "st2 \<in> set (ms ?k (Group lineAndColumnClause) ([], snd st))" by simp
  from ms_consumed[OF this] have "fst st2 = []" by simp
  then have st2: "st2 = ([], snd st2)" by (cases st2) simp
  have "ms 1 (localLinkRegex Linux) (w, \<lambda>_. None) =
          concat (map (ms ?k (Group lineAndColumnClause)) ?U)"
    by (simp add: localLinkRegex_def ms.simps(4))
  also have "\<dots> = st2 # rest2 @ concat (map (ms ?k (Group lineAndColumnClause)) rest)"
    using u st g by (metis append_Cons concat.simps(2) list.simps(9))
  finally show ?thesis using st2 by metis
qed

lemma indexOf_self: "w \<noteq> [] \<Longrightarrow> indexOf w w 0 = Some 0"
  by (cases w) (simp_all add: indexOf_def)

lemma path_chars_no_diff:
  assumes "\<forall>x \<in> set w. isPathChar x"
  shows "\<not> startsWith w ''diff --git''"
proof
  assume "startsWith w ''diff --git''"
  then obtain zs where "w = ''diff --git'' @ zs" by (auto simp: startsWith_def prefix_def)
  then have "CHR '' '' \<in> set w" by simp
  with assms have "isPathChar CHR '' ''" by blast
  then show False
    by (simp add: isPathChar_def excludedPathCharacters_def inClass_def isSpace_def)
qed

lemma scan_full_match:
  assumes f: "fullMatch unixLocalLinkClause w" and len: "length w \<le> MaxLineLength"
  shows "scan Linux w = [(w, 0)]"
proof -
  from full_hd[OF f] obtain cp rest where
    h: "ms 1 (localLinkRegex Linux) (w, \<lambda>_. None) = ([], cp) # rest" by blast
  have ne: "w \<noteq> []"
  proof
    assume "w = []"
    with h full_no_slash[of "[]" 1 "\<lambda>_. None"] show False by simp
  qed
  then obtain c cs where w: "w = c # cs" by (cases w) auto
  have ex: "rexExec (localLinkRegex Linux) w 0 = Some \<lparr>m_index = 0, m_text = w, m_groups = cp\<rparr>"
    using h unfolding w by (simp add: rexExec_def)
  have stop: "rexExec (localLinkRegex Linux) w (length w) = None"
    by (simp add: rexExec_def full_no_slash)
  have adj: "diffAdjust w w 0 = (w, 0)"
    using path_chars_no_diff[OF fullMatch_path_chars[OF f]] by (simp add: diffAdjust_def)
  have two: "scanFrom Linux w (length w) 0 = []"
    by (subst scanFrom.simps) (simp add: stop)
  have "scanFrom Linux w 0 (- 1) = [(w, 0)]"
    by (subst scanFrom.simps) (simp add: ex ne indexOf_self adj two)
  with ne len show ?thesis by (simp add: scan_def)
qed

text \<open>The strings the POSIX path clause matches as a whole, written out:
  path characters only (the characters that \<open>excludedPathCharactersClause\<close>
  accepts, among them \<open>.\<close>, \<open>~\<close> and \<open>/\<close>), with a \<open>/\<close> that is not the
  last character.\<close>

lemma star_body_mem:
  "\<forall>x \<in> set a. isPathChar x \<Longrightarrow>
     \<exists>c'. (rest, c') \<in> set (ms n (Star (Group excludedPathCharactersClause)) (a @ rest, c))"
proof (induction a arbitrary: c)
  case Nil
  show ?case by (subst ms.simps(8)) auto
next
  case (Cons x a)
  let ?c = "(clearCaps n (ngroups (Group excludedPathCharactersClause)) c)(n \<mapsto> [x])"
  from Cons.prems have p: "isPathChar x" "\<forall>y \<in> set a. isPathChar y" by simp_all
  then have u: "ms n (Star (Group excludedPathCharactersClause)) ((x # a) @ rest, c) =
          ms n (Star (Group excludedPathCharactersClause)) (a @ rest, ?c) @ [((x # a) @ rest, c)]"
    by (subst ms.simps(8)) (simp add: body_step)
  from Cons.IH[OF p(2), of ?c] obtain c' where
    "(rest, c') \<in> set (ms n (Star (Group excludedPathCharactersClause)) (a @ rest, ?c))" by blast
  then show ?case unfolding u by auto
qed

lemma plus_body_mem:
  assumes "\<forall>x \<in> set a. isPathChar x" and "a \<noteq> []"
  shows "\<exists>c'. (rest, c') \<in> set (ms n (Plus (Group excludedPathCharactersClause)) (a @ rest, c))"
proof -
  from assms(2) obtain x a' where a: "a = x # a'" by (cases a) auto
  let ?c = "(clearCaps n (ngroups (Group excludedPathCharactersClause)) c)(n \<mapsto> [x])"
  from assms(1) a have p: "isPathChar x" "\<forall>y \<in> set a'. isPathChar y" by simp_all
  then have u: "ms n (Plus (Group excludedPathCharactersClause)) ((x # a') @ rest, c) =
          ms n (Star (Group excludedPathCharactersClause)) (a' @ rest, ?c)"
    by (subst ms.simps(9)) (simp add: body_step)
  from star_body_mem[OF p(2), of rest n ?c] show ?thesis unfolding a u .
qed

lemma group_mem:
  "(s', c') \<in> set (ms (Suc n) r (s, cp)) \<Longrightarrow> \<exists>c''. (s', c'') \<in> set (ms n (Group r) (s, cp))"
  by (force simp: ms.simps(6))

lemma head_mem:
  assumes "\<forall>x \<in> set a. isPathChar x"
  shows "\<exists>c'. (rest, c') \<in>
           set (ms n (Opt (Group (Alt pathPrefix (Plus (Group excludedPathCharactersClause)))))
                  (a @ rest, c))"
proof (cases "a = []")
  case True
  then show ?thesis by (subst ms.simps(7)) auto
next
  case False
  let ?G = "Group (Alt pathPrefix (Plus (Group excludedPathCharactersClause)))"
  let ?c = "clearCaps n (ngroups ?G) c"
  from plus_body_mem[OF assms False, of rest "Suc n + ngroups pathPrefix" ?c] obtain c1 where
    "(rest, c1) \<in> set (ms (Suc n + ngroups pathPrefix)
                          (Plus (Group excludedPathCharactersClause)) (a @ rest, ?c))" by blast
  then have "(rest, c1) \<in> set (ms (Suc n)
                 (Alt pathPrefix (Plus (Group excludedPathCharactersClause))) (a @ rest, ?c))"
    by (simp add: ms.simps(5))
  from group_mem[OF this] obtain c2 where "(rest, c2) \<in> set (ms n ?G (a @ rest, ?c))" by blast
  with False show ?thesis by (subst ms.simps(7)) auto
qed

lemma segments_mem:
  assumes "\<forall>x \<in> set b. isPathChar x" and "b \<noteq> []"
  shows "\<exists>c'. ([], c') \<in>
           set (ms n (Plus (Group (Seq pathSeparatorClause (Plus (Group excludedPathCharactersClause)))))
                  (CHR ''/'' # b, c))"
proof -
  let ?R = "Seq pathSeparatorClause (Plus (Group excludedPathCharactersClause))"
  let ?c = "clearCaps n (ngroups (Group ?R)) c"
  from plus_body_mem[OF assms, of "[]" "Suc n" ?c] obtain c1 where
    "([], c1) \<in> set (ms (Suc n) (Plus (Group excludedPathCharactersClause)) (b, ?c))" by auto
  then have "([], c1) \<in> set (ms (Suc n) ?R (CHR ''/'' # b, ?c))"
    by (simp add: ms.simps(1,4) pathSeparatorClause_def)
  from group_mem[OF this] obtain c2 where m: "([], c2) \<in> set (ms n (Group ?R) (CHR ''/'' # b, ?c))"
    by blast
  have "([], c2) \<in> set (ms n (Star (Group ?R)) ([], c2))"
    by (simp add: star_segment_nil)
  with m show ?thesis by (subst ms.simps(9)) auto
qed

lemma segment_shape:
  assumes "ms n (Group (Seq pathSeparatorClause X)) (s, c) \<noteq> []"
  shows "\<exists>t. s = CHR ''/'' # t \<and> ms (Suc n) X (t, c) \<noteq> []"
proof (cases s)
  case Nil
  with assms show ?thesis by (simp add: ms.simps(1,4,6) pathSeparatorClause_def)
next
  case (Cons x t)
  with assms show ?thesis
    by (cases "x = CHR ''/''") (simp_all add: ms.simps(1,4,6) pathSeparatorClause_def)
qed

lemma plus_nonempty:
  "ms k (Plus r) (s, cp) \<noteq> [] \<Longrightarrow> ms k r (s, clearCaps k (ngroups r) cp) \<noteq> []"
  by (auto simp: ms.simps(9))

lemma fullMatch_unix_iff:
  "fullMatch unixLocalLinkClause w \<longleftrightarrow>
     (\<forall>x \<in> set w. isPathChar x) \<and> (\<exists>a b. w = a @ CHR ''/'' # b \<and> b \<noteq> [])"
proof
  let ?O = "Opt (Group (Alt pathPrefix (Plus (Group excludedPathCharactersClause))))"
  let ?G = "Group (Seq pathSeparatorClause (Plus (Group excludedPathCharactersClause)))"
  assume f: "fullMatch unixLocalLinkClause w"
  then have "ms 1 unixLocalLinkClause (w, \<lambda>_. None) \<noteq> []"
    by (auto simp: fullMatch_def list_ex_iff)
  then have "ms (Suc 1) (Seq ?O (Plus ?G)) (w, \<lambda>_. None) \<noteq> []"
    unfolding unixLocalLinkClause_def ms.simps(6) by simp
  then obtain mid j k where m: "mid \<in> set (ms j ?O (w, \<lambda>_. None))" "ms k (Plus ?G) mid \<noteq> []"
    unfolding ms.simps(4) by auto
  from m(2) have "ms k (Plus ?G) (fst mid, snd mid) \<noteq> []" by simp
  then obtain c0 where "ms k ?G (fst mid, c0) \<noteq> []"
    using plus_nonempty by blast
  from segment_shape[OF this] obtain t where t: "fst mid = CHR ''/'' # t"
    "ms (Suc k) (Plus (Group excludedPathCharactersClause)) (t, c0) \<noteq> []" by blast
  from t(2) have "t \<noteq> []" using plus_body_nil by metis
  moreover from ms_consumed[OF m(1)] t(1) obtain pre where "w = pre @ CHR ''/'' # t" by auto
  ultimately show "(\<forall>x \<in> set w. isPathChar x) \<and> (\<exists>a b. w = a @ CHR ''/'' # b \<and> b \<noteq> [])"
    using fullMatch_path_chars[OF f] by blast
next
  let ?O = "Opt (Group (Alt pathPrefix (Plus (Group excludedPathCharactersClause))))"
  let ?P = "Plus (Group (Seq pathSeparatorClause (Plus (Group excludedPathCharactersClause))))"
  assume "(\<forall>x \<in> set w. isPathChar x) \<and> (\<exists>a b. w = a @ CHR ''/'' # b \<and> b \<noteq> [])"
  then obtain a b where w: "w = a @ CHR ''/'' # b" "b \<noteq> []"
    and p: "\<forall>x \<in> set a. isPathChar x" "\<forall>x \<in> set b. isPathChar x" by auto
  from head_mem[OF p(1), of "CHR ''/'' # b" 2 "\<lambda>_. None"] obtain c1 where
    m1: "(CHR ''/'' # b, c1) \<in> set (ms 2 ?O (w, \<lambda>_. None))" unfolding w by blast
  from segments_mem[OF p(2) w(2), of "2 + ngroups ?O" c1] obtain c2 where
    m2: "([], c2) \<in> set (ms (2 + ngroups ?O) ?P (CHR ''/'' # b, c1))" by blast
  from m1 m2 have "([], c2) \<in> set (ms 2 (Seq ?O ?P) (w, \<lambda>_. None))"
    by (force simp: ms.simps(4))
  then have "([], c2) \<in> set (ms (Suc 1) (Seq ?O ?P) (w, \<lambda>_. None))"
    by (simp add: numeral_2_eq_2)
  from group_mem[OF this] obtain c3 where
    "([], c3) \<in> set (ms 1 (Group (Seq ?O ?P)) (w, \<lambda>_. None))" by blast
  then show "fullMatch unixLocalLinkClause w"
    unfolding fullMatch_def list_ex_iff unixLocalLinkClause_def by force
qed

text \<open>
  C8.  With the POSIX grammar, the strings that the path clause
  \<open>(prefix|body+)?(separator body+)+\<close> matches as a whole are the strings of
  path characters with a \<open>/\<close> that is not the last character.  For each of
  them (up to the length bound of \<open>detect\<close>), the scan of the line that consists
  of that string finds exactly one match: the whole string, at 0.  A line with
  no \<open>/\<close> yields no match.  In particular \<open>./foo/bar\<close>, \<open>../a/b\<close>, \<open>~/x\<close> and
  \<open>/etc/hosts\<close> are found, and \<open>foo\<close> yields nothing.
\<close>

theorem posix_paths_found:
  "(fullMatch unixLocalLinkClause w \<longleftrightarrow>
      (\<forall>x \<in> set w. isPathChar x) \<and> (\<exists>a b. w = a @ CHR ''/'' # b \<and> b \<noteq> [])) \<and>
   (fullMatch unixLocalLinkClause w \<and> length w \<le> MaxLineLength \<longrightarrow> scan Linux w = [(w, 0)]) \<and>
   (CHR ''/'' \<notin> set line \<longrightarrow> scan Linux line = []) \<and>
   map (scan Linux) [''./foo/bar'', ''../a/b'', ''~/x'', ''/etc/hosts'', ''foo''] =
     [[(''./foo/bar'', 0)], [(''../a/b'', 0)], [(''~/x'', 0)], [(''/etc/hosts'', 0)], []]"
proof -
  have ex: "map (scan Linux) [''./foo/bar'', ''../a/b'', ''~/x'', ''/etc/hosts'', ''foo''] =
     [[(''./foo/bar'', 0)], [(''../a/b'', 0)], [(''~/x'', 0)], [(''/etc/hosts'', 0)], []]"
    by code_simp
  from fullMatch_unix_iff[of w] scan_full_match[of w] scan_no_slash[of line] ex
  show ?thesis by blast
qed

theorem posix_paths_found_witness:
  "fullMatch unixLocalLinkClause ''./foo/bar'' \<and> length ''./foo/bar'' \<le> MaxLineLength \<and>
   scan Linux ''./foo/bar'' = [(''./foo/bar'', 0)] \<and>
   fullMatch unixLocalLinkClause ''a//b'' \<and> scan Linux ''a//b'' = [(''a//b'', 0)] \<and>
   CHR ''/'' \<notin> set ''foo bar'' \<and> scan Linux ''foo bar'' = []"
proof -
  have h1: "fullMatch unixLocalLinkClause ''./foo/bar''" by code_simp
  have h2: "fullMatch unixLocalLinkClause ''a//b''" by code_simp
  have l: "length ''./foo/bar'' \<le> MaxLineLength" "length ''a//b'' \<le> MaxLineLength"
    by (simp_all add: MaxLineLength_def)
  have n: "CHR ''/'' \<notin> set ''foo bar''" by simp
  from h1 h2 l n posix_paths_found[of "''./foo/bar''" "''foo bar''"]
       posix_paths_found[of "''a//b''" "''foo bar''"]
  show ?thesis by blast
qed

end
